theory Spec2Isabelle
  imports Main
begin

section \<open>Run-time failures\<close>

text \<open>
  A Go panic ends the call that raised it.  The two panics the package can raise itself
  are a slice index out of range and the explicit \<open>panic(fmt.Sprintf(...))\<close> of
  \<open>RegisterAlternative\<close>, which carries its message.
\<close>

datatype error = IndexOutOfRange | Panic string

section \<open>The index counter (alternative\_index\_helpers.go)\<close>

text \<open>
  Go's \<open>int\<close> is modelled by the unbounded integers: the values that occur are slice
  lengths and indexes below them.
\<close>

record IndexCounter =
  currIndexes :: "int list"
  alternativeCountList :: "int list"

text \<open>
  \<open>NewCurrIndexes\<close>: \<open>make([]int, length)\<close> followed by the loop that stores 0 at
  every position.
\<close>

definition NewCurrIndexes :: "int list \<Rightarrow> IndexCounter" where
  "NewCurrIndexes acl =
     \<lparr>currIndexes = fold (\<lambda>i xs. xs[i := 0]) [0..<length acl] (replicate (length acl) 0),
      alternativeCountList = acl\<rparr>"

text \<open>
  The first loop of \<open>AddOne\<close>: it walks \<open>currIndexes\<close> from position \<open>i\<close> on and
  stops at the first index below \<open>alternativeCountList[i] - 1\<close>.  The result is that
  position, \<open>None\<close> when the loop ends without a \<open>break\<close>, or the panic of reading
  \<open>alternativeCountList[i]\<close> out of range.
\<close>

fun AddOne_scan :: "int list \<Rightarrow> nat \<Rightarrow> int list \<Rightarrow> error + nat option" where
  "AddOne_scan acl i [] = Inr None"
| "AddOne_scan acl i (currIndex # rest) =
     (if i < length acl then
        (if currIndex < acl ! i - 1 then Inr (Some i) else AddOne_scan acl (Suc i) rest)
      else Inl IndexOutOfRange)"

text \<open>
  \<open>AddOne\<close> returns \<open>isDone\<close> and the counter after the call.  When no index was
  increased, \<open>increasedIndex\<close> keeps its initial 0, so the second loop resets nothing
  and the counter is left as it was.
\<close>

definition AddOne :: "IndexCounter \<Rightarrow> error + (bool \<times> IndexCounter)" where
  "AddOne idx =
     (case AddOne_scan (alternativeCountList idx) 0 (currIndexes idx) of
        Inl e \<Rightarrow> Inl e
      | Inr None \<Rightarrow> Inr (True, idx)
      | Inr (Some increasedIndex) \<Rightarrow>
          Inr (False,
               idx\<lparr>currIndexes :=
                     fold (\<lambda>i xs. xs[i := 0]) [0..<increasedIndex]
                       ((currIndexes idx)[increasedIndex := currIndexes idx ! increasedIndex + 1])\<rparr>))"

text \<open>\<open>strconv.Itoa\<close>: the decimal digits of an integer, with a minus sign when negative.\<close>

definition digit_char :: "nat \<Rightarrow> char" where
  "digit_char d = ''0123456789'' ! d"

fun digits :: "nat \<Rightarrow> string" where
  "digits n = (if n < 10 then [digit_char n] else digits (n div 10) @ [digit_char (n mod 10)])"

declare digits.simps [simp del]

definition Itoa :: "int \<Rightarrow> string" where
  "Itoa n = (if n < 0 then CHR ''-'' # digits (nat (- n)) else digits (nat n))"

text \<open>\<open>String\<close> writes the indexes one after the other, with no separator.\<close>

definition String :: "IndexCounter \<Rightarrow> string" where
  "String idx = concat (map Itoa (currIndexes idx))"

subsection \<open>The loops driven by AddOne end\<close>

text \<open>
  The measure that decreases with every call of \<open>AddOne\<close> that does not report done:
  the distance of every index from its last value, weighed at position \<open>k\<close> by the
  product of the radices before it.  It is defined for any two lists, whatever their
  lengths and entries.
\<close>

fun remaining :: "int list \<Rightarrow> int list \<Rightarrow> nat" where
  "remaining [] rs = 0"
| "remaining (c # cs) [] = 0"
| "remaining (c # cs) (r # rs) = nat (r - 1 - c) + nat (max 1 r) * remaining cs rs"

text \<open>A structural reading of one \<open>AddOne\<close> call, used to reason about it.\<close>

fun advance :: "int list \<Rightarrow> int list \<Rightarrow> error + int list option" where
  "advance [] rs = Inr None"
| "advance (c # cs) [] = Inl IndexOutOfRange"
| "advance (c # cs) (r # rs) =
     (if c < r - 1 then Inr (Some ((c + 1) # cs))
      else (case advance cs rs of
              Inl e \<Rightarrow> Inl e
            | Inr None \<Rightarrow> Inr None
            | Inr (Some cs') \<Rightarrow> Inr (Some (0 # cs'))))"

lemma zero_prefix: "k \<le> length xs \<Longrightarrow> fold (\<lambda>i ys. ys[i := 0::int]) [0..<k] xs = replicate k 0 @ drop k xs"
proof (induction k)
  case 0
  then show ?case by simp
next
  case (Suc k)
  then have "k < length xs" by simp
  then have "(replicate k 0 @ drop k xs)[k := 0::int] = replicate (Suc k) 0 @ drop (Suc k) xs"
    by (simp add: list_update_append replicate_append_same upd_conv_take_nth_drop
        Cons_nth_drop_Suc [symmetric])
  with Suc show ?case by simp
qed

text \<open>The position the first loop of \<open>AddOne\<close> stops at, counted structurally.\<close>

fun first_below :: "int list \<Rightarrow> int list \<Rightarrow> error + nat option" where
  "first_below [] rs = Inr None"
| "first_below (c # cs) [] = Inl IndexOutOfRange"
| "first_below (c # cs) (r # rs) =
     (if c < r - 1 then Inr (Some 0)
      else (case first_below cs rs of
              Inl e \<Rightarrow> Inl e
            | Inr None \<Rightarrow> Inr None
            | Inr (Some k) \<Rightarrow> Inr (Some (Suc k))))"

lemma AddOne_scan_first_below:
  "AddOne_scan acl i cs =
     (case first_below cs (drop i acl) of
        Inl e \<Rightarrow> Inl e | Inr None \<Rightarrow> Inr None | Inr (Some k) \<Rightarrow> Inr (Some (i + k)))"
proof (induction cs arbitrary: i)
  case Nil
  then show ?case by simp
next
  case (Cons c cs)
  show ?case
  proof (cases "i < length acl")
    case True
    then have d: "drop i acl = acl ! i # drop (Suc i) acl"
      by (simp add: Cons_nth_drop_Suc)
    show ?thesis
      using True by (simp add: d Cons.IH split: sum.splits option.splits)
  next
    case False
    then show ?thesis by simp
  qed
qed

lemma first_below_advance:
  "first_below cs rs = Inl e \<Longrightarrow> advance cs rs = Inl e"
  "first_below cs rs = Inr None \<Longrightarrow> advance cs rs = Inr None"
  "first_below cs rs = Inr (Some k) \<Longrightarrow>
     k < length cs \<and> advance cs rs = Inr (Some (replicate k 0 @ drop k (cs[k := cs ! k + 1])))"
  by (induction cs rs arbitrary: k rule: first_below.induct)
     (auto split: if_splits sum.splits option.splits)

lemma AddOne_advance:
  "AddOne idx =
     (case advance (currIndexes idx) (alternativeCountList idx) of
        Inl e \<Rightarrow> Inl e
      | Inr None \<Rightarrow> Inr (True, idx)
      | Inr (Some cs') \<Rightarrow> Inr (False, idx\<lparr>currIndexes := cs'\<rparr>))"
proof (cases "first_below (currIndexes idx) (alternativeCountList idx)")
  case (Inl e)
  then show ?thesis
    by (simp add: AddOne_def AddOne_scan_first_below first_below_advance(1))
next
  case (Inr r)
  show ?thesis
  proof (cases r)
    case None
    with Inr show ?thesis
      by (simp add: AddOne_def AddOne_scan_first_below first_below_advance(2))
  next
    case (Some k)
    with Inr first_below_advance(3) [of "currIndexes idx" "alternativeCountList idx" k]
    show ?thesis
      by (simp add: AddOne_def AddOne_scan_first_below zero_prefix)
  qed
qed

lemma advance_remaining:
  "advance cs rs = Inr (Some cs') \<Longrightarrow> remaining cs' rs < remaining cs rs"
proof (induction cs rs arbitrary: cs' rule: advance.induct)
  case (1 rs)
  then show ?case by simp
next
  case (2 c cs)
  then show ?case by simp
next
  case (3 c cs r rs)
  show ?case
  proof (cases "c < r - 1")
    case True
    with 3 show ?thesis by auto
  next
    case False
    with 3 obtain ds where a: "advance cs rs = Inr (Some ds)" and c: "cs' = 0 # ds"
      by (auto split: sum.splits option.splits)
    from 3(1) [OF False a] have "Suc (remaining ds rs) \<le> remaining cs rs" by simp
    then have "nat (max 1 r) * Suc (remaining ds rs) \<le> nat (max 1 r) * remaining cs rs"
      by (rule mult_le_mono2)
    then have m: "nat (max 1 r) + nat (max 1 r) * remaining ds rs \<le> nat (max 1 r) * remaining cs rs"
      by simp
    have lt: "nat (r - 1) < nat (max 1 r)" by (simp add: max_def)
    have "remaining cs' (r # rs) = nat (r - 1) + nat (max 1 r) * remaining ds rs"
      using c by simp
    moreover have "remaining (c # cs) (r # rs) = nat (max 1 r) * remaining cs rs"
      using False by simp
    ultimately show ?thesis using lt m by linarith
  qed
qed

lemma AddOne_remaining:
  "AddOne idx = Inr (False, idx') \<Longrightarrow>
   remaining (currIndexes idx') (alternativeCountList idx')
     < remaining (currIndexes idx) (alternativeCountList idx)"
  by (auto simp: AddOne_advance advance_remaining split: sum.splits option.splits)

text \<open>
  The driver of \<open>TestNewCurrIndexes\<close>: record the current tuple, call \<open>AddOne\<close>, stop
  when it reports done.  The result is the list of the counter's states before each
  call (the test prints \<open>String\<close> of each) and the counter as the last \<open>AddOne\<close>
  left it.
\<close>

function run_counter :: "IndexCounter \<Rightarrow> error + (IndexCounter list \<times> IndexCounter)" where
  "run_counter idx =
     (case AddOne idx of
        Inl e \<Rightarrow> Inl e
      | Inr (isDone, idx') \<Rightarrow>
          if isDone then Inr ([idx], idx')
          else (case run_counter idx' of
                  Inl e \<Rightarrow> Inl e
                | Inr (out, final) \<Rightarrow> Inr (idx # out, final)))"
  by pat_completeness auto
termination
  by (relation "measure (\<lambda>idx. remaining (currIndexes idx) (alternativeCountList idx))")
     (auto simp: AddOne_remaining)

declare run_counter.simps [simp del]

section \<open>Test cases and the registry (testbuilder.go)\<close>

text \<open>
  A builder call allocates \<open>var sut SUT\<close> and \<open>var state STATE\<close> and hands their
  addresses to the user's setup functions.  The store holds the cells of both types and
  the next free address; a setup function receives \<open>t\<close> and the two addresses and
  returns the store it leaves behind.  Setup functions are assumed to return.

  The registry is a value: the test cases a test set and a builder refer to are those
  the registry held when \<open>GenerateTestSets\<close> ran.
\<close>

record ('sut, 'state) store =
  sut_cells :: "nat \<Rightarrow> 'sut"
  state_cells :: "nat \<Rightarrow> 'state"
  next_addr :: nat

type_synonym ('t, 'sut, 'state) builder_func = "'t \<Rightarrow> nat \<Rightarrow> nat \<Rightarrow> ('sut, 'state) store \<Rightarrow> ('sut, 'state) store"

record ('t, 'sut, 'state, 'assert) TestCase =
  TestName :: string
  StateBuilder :: "('t, 'sut, 'state) builder_func option"
  SpecificBuilder :: "('t, 'sut, 'state) builder_func option"
  Assertion :: 'assert

record ('t, 'sut, 'state, 'assert) TestCaseSet =
  TestAlternatives :: "('t, 'sut, 'state, 'assert) TestCase list"

record ('t, 'sut, 'state, 'assert) TestsBuilder =
  TestCaseSets :: "('t, 'sut, 'state, 'assert) TestCaseSet list"

record ('t, 'sut, 'state, 'assert) TestSet =
  TestCases :: "('t, 'sut, 'state, 'assert) TestCase list"
  TestSetName :: string

record ('sut, 'state, 'assert) TestData =
  SUT :: 'sut
  State :: 'state
  Assert :: 'assert

text \<open>
  The chained mutators store a field of the test case and return the same test case.
\<close>

definition WithStateBuilder ::
  "('t, 'sut, 'state) builder_func \<Rightarrow> ('t, 'sut, 'state, 'assert) TestCase \<Rightarrow> ('t, 'sut, 'state, 'assert) TestCase" where
  "WithStateBuilder f ts = ts\<lparr>StateBuilder := Some f\<rparr>"

definition WithSpecificBuilder ::
  "('t, 'sut, 'state) builder_func \<Rightarrow> ('t, 'sut, 'state, 'assert) TestCase \<Rightarrow> ('t, 'sut, 'state, 'assert) TestCase" where
  "WithSpecificBuilder f ts = ts\<lparr>SpecificBuilder := Some f\<rparr>"

definition WithAssertion ::
  "'assert \<Rightarrow> ('t, 'sut, 'state, 'assert) TestCase \<Rightarrow> ('t, 'sut, 'state, 'assert) TestCase" where
  "WithAssertion f ts = ts\<lparr>Assertion := f\<rparr>"

text \<open>
  \<open>Register\<close> and \<open>RegisterAlternative\<close> return a pointer to the test case they
  created.  The pointer is modelled by the place of the test case in the registry: the
  position of its set and its position among the alternatives.  The zero value of the
  type parameter \<open>ASSERT\<close> is passed as \<open>zero_assert\<close>.
\<close>

type_synonym handle = "nat \<times> nat"

definition deref ::
  "('t, 'sut, 'state, 'assert) TestsBuilder \<Rightarrow> handle \<Rightarrow> ('t, 'sut, 'state, 'assert) TestCase option" where
  "deref ts h =
     (if fst h < length (TestCaseSets ts)
         \<and> snd h < length (TestAlternatives (TestCaseSets ts ! fst h))
      then Some (TestAlternatives (TestCaseSets ts ! fst h) ! snd h) else None)"

definition modify ::
  "handle \<Rightarrow> (('t, 'sut, 'state, 'assert) TestCase \<Rightarrow> ('t, 'sut, 'state, 'assert) TestCase)
     \<Rightarrow> ('t, 'sut, 'state, 'assert) TestsBuilder \<Rightarrow> ('t, 'sut, 'state, 'assert) TestsBuilder" where
  "modify h f ts =
     (case deref ts h of
        None \<Rightarrow> ts
      | Some tc \<Rightarrow>
          ts\<lparr>TestCaseSets := (TestCaseSets ts)[fst h :=
               (TestCaseSets ts ! fst h)\<lparr>TestAlternatives :=
                  (TestAlternatives (TestCaseSets ts ! fst h))[snd h := f tc]\<rparr>]\<rparr>)"

definition new_TestCase :: "'assert \<Rightarrow> string \<Rightarrow> ('t, 'sut, 'state, 'assert) TestCase" where
  "new_TestCase zero_assert name =
     \<lparr>TestName = name, StateBuilder = None, SpecificBuilder = None, Assertion = zero_assert\<rparr>"

definition Register ::
  "'assert \<Rightarrow> string \<Rightarrow> ('t, 'sut, 'state, 'assert) TestsBuilder
     \<Rightarrow> handle \<times> ('t, 'sut, 'state, 'assert) TestsBuilder" where
  "Register zero_assert name ts =
     (let testcase = new_TestCase zero_assert name;
          newTestCaseSet = \<lparr>TestAlternatives = [testcase]\<rparr>
      in ((length (TestCaseSets ts), 0), ts\<lparr>TestCaseSets := TestCaseSets ts @ [newTestCaseSet]\<rparr>))"

definition no_test_registered :: "string \<Rightarrow> string" where
  "no_test_registered name =
     ''Cannot create alternative '' @ [CHR 0x27] @ name @ [CHR 0x27] @ '', ''
     @ ''since no test is registered yet. ''
     @ ''Please Use builder.Register(name) first, before defining alternatives''"

text \<open>
  The result of \<open>RegisterAlternative\<close> is the panic or the returned pointer, together
  with the registry as the call leaves it.
\<close>

definition RegisterAlternative ::
  "'assert \<Rightarrow> string \<Rightarrow> ('t, 'sut, 'state, 'assert) TestsBuilder
     \<Rightarrow> (error + handle) \<times> ('t, 'sut, 'state, 'assert) TestsBuilder" where
  "RegisterAlternative zero_assert name ts =
     (let testcase = new_TestCase zero_assert name in
      if length (TestCaseSets ts) = 0 then (Inl (Panic (no_test_registered name)), ts)
      else
        let latest = length (TestCaseSets ts) - 1;
            latestTestCaseSet = TestCaseSets ts ! latest
        in (Inr (latest, length (TestAlternatives latestTestCaseSet)),
            ts\<lparr>TestCaseSets := (TestCaseSets ts)[latest :=
                 latestTestCaseSet\<lparr>TestAlternatives :=
                    TestAlternatives latestTestCaseSet @ [testcase]\<rparr>]\<rparr>))"

section \<open>GenerateTestSets\<close>

text \<open>The first loop: the number of alternatives of every set, and whether one has several.\<close>

definition count_alternatives ::
  "('t, 'sut, 'state, 'assert) TestCaseSet list \<Rightarrow> int list \<times> bool" where
  "count_alternatives sets =
     fold (\<lambda>testCaseSet (alternativeCountList, moreThanOneAlternative).
             let numAlternatives = int (length (TestAlternatives testCaseSet))
             in (alternativeCountList @ [numAlternatives],
                 if numAlternatives > 1 then True else moreThanOneAlternative))
       sets ([], False)"

text \<open>
  The inner loop picks \<open>TestAlternatives[indexes[setIdx]]\<close> of every set; both index
  expressions panic out of range.
\<close>

fun pick_cases ::
  "int list \<Rightarrow> nat \<Rightarrow> ('t, 'sut, 'state, 'assert) TestCaseSet list
     \<Rightarrow> error + ('t, 'sut, 'state, 'assert) TestCase list" where
  "pick_cases indexes setIdx [] = Inr []"
| "pick_cases indexes setIdx (testcaseSet # rest) =
     (if setIdx < length indexes then
        (let altIdx = indexes ! setIdx in
         if 0 \<le> altIdx \<and> nat altIdx < length (TestAlternatives testcaseSet) then
           (case pick_cases indexes (Suc setIdx) rest of
              Inl e \<Rightarrow> Inl e
            | Inr testCases \<Rightarrow> Inr (TestAlternatives testcaseSet ! nat altIdx # testCases))
         else Inl IndexOutOfRange)
      else Inl IndexOutOfRange)"

function generate_loop ::
  "('t, 'sut, 'state, 'assert) TestCaseSet list \<Rightarrow> bool \<Rightarrow> IndexCounter
     \<Rightarrow> ('t, 'sut, 'state, 'assert) TestSet list
     \<Rightarrow> error + ('t, 'sut, 'state, 'assert) TestSet list" where
  "generate_loop sets moreThanOneAlternative indexCounter testSets =
     (case pick_cases (currIndexes indexCounter) 0 sets of
        Inl e \<Rightarrow> Inl e
      | Inr testCases \<Rightarrow>
          (let newTestSet =
                 \<lparr>TestCases = testCases,
                  TestSetName = (if moreThanOneAlternative then String indexCounter else [])\<rparr>
           in case AddOne indexCounter of
                Inl e \<Rightarrow> Inl e
              | Inr (isDone, indexCounter') \<Rightarrow>
                  if isDone then Inr (testSets @ [newTestSet])
                  else generate_loop sets moreThanOneAlternative indexCounter'
                         (testSets @ [newTestSet])))"
  by pat_completeness auto
termination
  by (relation "measure (\<lambda>(sets, m, idx, acc).
        remaining (currIndexes idx) (alternativeCountList idx))")
     (auto simp: AddOne_remaining)

declare generate_loop.simps [simp del]

definition GenerateTestSets ::
  "('t, 'sut, 'state, 'assert) TestsBuilder \<Rightarrow> error + ('t, 'sut, 'state, 'assert) TestSet list" where
  "GenerateTestSets ts =
     (let (alternativeCountList, moreThanOneAlternative) = count_alternatives (TestCaseSets ts);
          indexCounter = NewCurrIndexes alternativeCountList
      in generate_loop (TestCaseSets ts) moreThanOneAlternative indexCounter [])"

section \<open>Tests\<close>

text \<open>
  \<open>var sut SUT\<close> and \<open>var state STATE\<close>: a fresh cell holding the zero value of the
  type parameter, which is passed as \<open>zero_sut\<close> and \<open>zero_state\<close>.
\<close>

definition new_sut :: "'sut \<Rightarrow> ('sut, 'state) store \<Rightarrow> nat \<times> ('sut, 'state) store" where
  "new_sut zero_sut s =
     (next_addr s,
      s\<lparr>sut_cells := (sut_cells s)(next_addr s := zero_sut), next_addr := Suc (next_addr s)\<rparr>)"

definition new_state :: "'state \<Rightarrow> ('sut, 'state) store \<Rightarrow> nat \<times> ('sut, 'state) store" where
  "new_state zero_state s =
     (next_addr s,
      s\<lparr>state_cells := (state_cells s)(next_addr s := zero_state), next_addr := Suc (next_addr s)\<rparr>)"

text \<open>
  The calls a builder makes are recorded next to the store, to state which setup
  functions ran and in which order.
\<close>

datatype call = StateBuilderCall nat | SpecificBuilderCall nat

text \<open>
  The loop \<open>for j, testcase := range testCases\<close> of the closure \<open>build\<close>: the
  \<open>StateBuilder\<close> when it is not nil, \<open>continue\<close> while \<open>j < i\<close>, then the
  \<open>SpecificBuilder\<close> when it is not nil, and \<open>break\<close>.
\<close>

fun build_loop ::
  "'t \<Rightarrow> nat \<Rightarrow> nat \<Rightarrow> nat \<Rightarrow> nat \<Rightarrow> ('t, 'sut, 'state, 'assert) TestCase list
     \<Rightarrow> ('sut, 'state) store \<times> call list \<Rightarrow> ('sut, 'state) store \<times> call list" where
  "build_loop t sut state i j [] (s, calls) = (s, calls)"
| "build_loop t sut state i j (testcase # rest) (s, calls) =
     (let (s1, calls1) =
            (case StateBuilder testcase of
               None \<Rightarrow> (s, calls)
             | Some builder \<Rightarrow> (builder t sut state s, calls @ [StateBuilderCall j]))
      in if j < i then build_loop t sut state i (Suc j) rest (s1, calls1)
         else (case SpecificBuilder testcase of
                 None \<Rightarrow> (s1, calls1)
               | Some builder \<Rightarrow> (builder t sut state s1, calls1 @ [SpecificBuilderCall j])))"

text \<open>
  One call of \<open>build\<close>, with everything it does: the two addresses it allocated, the
  store it leaves and the calls it made.
\<close>

definition build_run ::
  "'sut \<Rightarrow> 'state \<Rightarrow> ('t, 'sut, 'state, 'assert) TestCase list \<Rightarrow> nat \<Rightarrow> 't
     \<Rightarrow> ('sut, 'state) store \<Rightarrow> (nat \<times> nat) \<times> ('sut, 'state) store \<times> call list" where
  "build_run zero_sut zero_state testCases i t s =
     (let (sut, s1) = new_sut zero_sut s;
          (state, s2) = new_state zero_state s1;
          (s3, calls) = build_loop t sut state i 0 testCases (s2, [])
      in ((sut, state), s3, calls))"

text \<open>What \<open>build\<close> returns: the \<open>TestData\<close> copied out of the two cells.\<close>

definition build ::
  "'sut \<Rightarrow> 'state \<Rightarrow> ('t, 'sut, 'state, 'assert) TestCase list \<Rightarrow> nat
     \<Rightarrow> ('t, 'sut, 'state, 'assert) TestCase \<Rightarrow> 't
     \<Rightarrow> ('sut, 'state) store \<Rightarrow> ('sut, 'state, 'assert) TestData \<times> ('sut, 'state) store" where
  "build zero_sut zero_state testCases i curcase t s =
     (let ((sut, state), s', calls) = build_run zero_sut zero_state testCases i t s
      in (\<lparr>SUT = sut_cells s' sut, State = state_cells s' state, Assert = Assertion curcase\<rparr>, s'))"

definition testName ::
  "('t, 'sut, 'state, 'assert) TestSet \<Rightarrow> ('t, 'sut, 'state, 'assert) TestCase \<Rightarrow> string" where
  "testName tset curcase =
     (if TestSetName tset \<noteq> [] then
        ''Test Alternative #'' @ TestSetName tset @ ''_'' @ TestName curcase
      else TestName curcase)"

text \<open>
  The iterator calls \<open>yield\<close> with one pair at a time and returns as soon as \<open>yield\<close>
  answers false.  The consumer's own state \<open>c\<close> is threaded through the calls of
  \<open>yield\<close>.  \<open>yield_cases\<close> is the loop over the test cases of one test set (its
  result says whether to go on), \<open>yield_sets\<close> the loop over the test sets.
\<close>

fun yield_cases ::
  "'sut \<Rightarrow> 'state
     \<Rightarrow> (string \<Rightarrow> ('t \<Rightarrow> ('sut, 'state) store \<Rightarrow> ('sut, 'state, 'assert) TestData \<times> ('sut, 'state) store)
           \<Rightarrow> 'c \<Rightarrow> bool \<times> 'c)
     \<Rightarrow> ('t, 'sut, 'state, 'assert) TestSet \<Rightarrow> nat
     \<Rightarrow> ('t, 'sut, 'state, 'assert) TestCase list \<Rightarrow> 'c \<Rightarrow> bool \<times> 'c" where
  "yield_cases zero_sut zero_state yield tset i [] c = (True, c)"
| "yield_cases zero_sut zero_state yield tset i (curcase # rest) c =
     (case yield (testName tset curcase)
                 (build zero_sut zero_state (TestCases tset) i curcase) c of
        (True, c') \<Rightarrow> yield_cases zero_sut zero_state yield tset (Suc i) rest c'
      | (False, c') \<Rightarrow> (False, c'))"

fun yield_sets ::
  "'sut \<Rightarrow> 'state
     \<Rightarrow> (string \<Rightarrow> ('t \<Rightarrow> ('sut, 'state) store \<Rightarrow> ('sut, 'state, 'assert) TestData \<times> ('sut, 'state) store)
           \<Rightarrow> 'c \<Rightarrow> bool \<times> 'c)
     \<Rightarrow> ('t, 'sut, 'state, 'assert) TestSet list \<Rightarrow> 'c \<Rightarrow> 'c" where
  "yield_sets zero_sut zero_state yield [] c = c"
| "yield_sets zero_sut zero_state yield (tset # rest) c =
     (case yield_cases zero_sut zero_state yield tset 0 (TestCases tset) c of
        (True, c') \<Rightarrow> yield_sets zero_sut zero_state yield rest c'
      | (False, c') \<Rightarrow> c')"

definition Tests ::
  "'sut \<Rightarrow> 'state \<Rightarrow> ('t, 'sut, 'state, 'assert) TestsBuilder
     \<Rightarrow> (string \<Rightarrow> ('t \<Rightarrow> ('sut, 'state) store \<Rightarrow> ('sut, 'state, 'assert) TestData \<times> ('sut, 'state) store)
           \<Rightarrow> 'c \<Rightarrow> bool \<times> 'c)
     \<Rightarrow> 'c \<Rightarrow> error + 'c" where
  "Tests zero_sut zero_state ts yield c =
     (case GenerateTestSets ts of
        Inl e \<Rightarrow> Inl e
      | Inr testSets \<Rightarrow> Inr (yield_sets zero_sut zero_state yield testSets c))"

text \<open>
  The consumer \<open>for name, build := range builder.Tests() { ... }\<close> that never breaks
  and keeps every pair: what it has collected at the end is the emitted sequence.
\<close>

definition collect :: "string \<Rightarrow> 'b \<Rightarrow> (string \<times> 'b) list \<Rightarrow> bool \<times> (string \<times> 'b) list" where
  "collect name b acc = (True, acc @ [(name, b)])"

definition emitted ::
  "'sut \<Rightarrow> 'state \<Rightarrow> ('t, 'sut, 'state, 'assert) TestsBuilder
     \<Rightarrow> error + (string \<times> ('t \<Rightarrow> ('sut, 'state) store \<Rightarrow> ('sut, 'state, 'assert) TestData \<times> ('sut, 'state) store)) list" where
  "emitted zero_sut zero_state ts = Tests zero_sut zero_state ts collect []"

section \<open>Notions used to state the properties\<close>

text \<open>
  The tuples of a radix list, every index at least 0 and below its radix, and their
  numbering in mixed radix with position 0 the least significant: \<open>rank\<close> is the
  number of a tuple, \<open>unrank\<close> the tuple of a number.
\<close>

definition in_range :: "int list \<Rightarrow> int list \<Rightarrow> bool" where
  "in_range cs rs = list_all2 (\<lambda>c r. 0 \<le> c \<and> c < r) cs rs"

fun rank :: "int list \<Rightarrow> int list \<Rightarrow> int" where
  "rank [] rs = 0"
| "rank (c # cs) [] = 0"
| "rank (c # cs) (r # rs) = c + r * rank cs rs"

fun unrank :: "int list \<Rightarrow> int \<Rightarrow> int list" where
  "unrank [] n = []"
| "unrank (r # rs) n = (n mod r) # unrank rs (n div r)"

text \<open>
  The number of alternatives of every set, and whether some set has more than one: the
  two values the first loop of \<open>GenerateTestSets\<close> computes.
\<close>

definition counts :: "('t, 'sut, 'state, 'assert) TestCaseSet list \<Rightarrow> int list" where
  "counts sets = map (\<lambda>s. int (length (TestAlternatives s))) sets"

definition several :: "('t, 'sut, 'state, 'assert) TestCaseSet list \<Rightarrow> bool" where
  "several sets = list_ex (\<lambda>s. 1 < length (TestAlternatives s)) sets"

text \<open>The invariant of the registry: every set holds at least one alternative.\<close>

definition wellformed :: "('t, 'sut, 'state, 'assert) TestsBuilder \<Rightarrow> bool" where
  "wellformed ts = list_all (\<lambda>s. TestAlternatives s \<noteq> []) (TestCaseSets ts)"

text \<open>The path a tuple of indexes selects: one alternative of every set.\<close>

definition path ::
  "('t, 'sut, 'state, 'assert) TestCaseSet list \<Rightarrow> int list \<Rightarrow> ('t, 'sut, 'state, 'assert) TestCase list" where
  "path sets indexes = map (\<lambda>(s, k). TestAlternatives s ! nat k) (zip sets indexes)"

text \<open>The test set \<open>GenerateTestSets\<close> makes at one state of the counter.\<close>

definition make_set ::
  "('t, 'sut, 'state, 'assert) TestCaseSet list \<Rightarrow> bool \<Rightarrow> IndexCounter
     \<Rightarrow> ('t, 'sut, 'state, 'assert) TestSet" where
  "make_set sets moreThanOneAlternative indexCounter =
     \<lparr>TestCases = path sets (currIndexes indexCounter),
      TestSetName = (if moreThanOneAlternative then String indexCounter else [])\<rparr>"

text \<open>The pairs of one test set, in the order of its test cases.\<close>

definition pairs_of ::
  "'sut \<Rightarrow> 'state \<Rightarrow> ('t, 'sut, 'state, 'assert) TestSet
     \<Rightarrow> (string \<times> ('t \<Rightarrow> ('sut, 'state) store \<Rightarrow> ('sut, 'state, 'assert) TestData \<times> ('sut, 'state) store)) list" where
  "pairs_of zero_sut zero_state tset =
     map (\<lambda>(i, curcase). (testName tset curcase, build zero_sut zero_state (TestCases tset) i curcase))
       (enumerate 0 (TestCases tset))"

text \<open>
  Steps 2 and 3 of the contract of \<open>build\<close>: the cumulative setup of position \<open>j\<close>
  when there is one, and the one-shot setup of position \<open>i\<close> when there is one.
\<close>

definition cumulative_setup ::
  "'t \<Rightarrow> nat \<Rightarrow> nat \<Rightarrow> ('t, 'sut, 'state, 'assert) TestCase list \<Rightarrow> nat
     \<Rightarrow> ('sut, 'state) store \<times> call list \<Rightarrow> ('sut, 'state) store \<times> call list" where
  "cumulative_setup t sut state P j r =
     (case StateBuilder (P ! j) of
        None \<Rightarrow> r
      | Some f \<Rightarrow> (f t sut state (fst r), snd r @ [StateBuilderCall j]))"

definition one_shot_setup ::
  "'t \<Rightarrow> nat \<Rightarrow> nat \<Rightarrow> ('t, 'sut, 'state, 'assert) TestCase list \<Rightarrow> nat
     \<Rightarrow> ('sut, 'state) store \<times> call list \<Rightarrow> ('sut, 'state) store \<times> call list" where
  "one_shot_setup t sut state P i r =
     (case SpecificBuilder (P ! i) of
        None \<Rightarrow> r
      | Some f \<Rightarrow> (f t sut state (fst r), snd r @ [SpecificBuilderCall i]))"

text \<open>
  The contract of \<open>build\<close> for position \<open>i\<close> of the path \<open>P\<close>, step by step:
  fresh zero-valued cells, the cumulative setups of the positions 0 to \<open>i\<close>, the
  one-shot setup of position \<open>i\<close>.
\<close>

definition spec_build ::
  "'sut \<Rightarrow> 'state \<Rightarrow> ('t, 'sut, 'state, 'assert) TestCase list \<Rightarrow> nat \<Rightarrow> 't
     \<Rightarrow> ('sut, 'state) store \<Rightarrow> (nat \<times> nat) \<times> ('sut, 'state) store \<times> call list" where
  "spec_build zero_sut zero_state P i t s =
     (let (sut, s1) = new_sut zero_sut s;
          (state, s2) = new_state zero_state s1;
          r = fold (cumulative_setup t sut state P) [0..<Suc i] (s2, []);
          (s', calls) = one_shot_setup t sut state P i r
      in ((sut, state), s', calls))"

text \<open>
  The protocol of the iterator for any consumer: the pairs are offered one after the
  other until the consumer answers false.
\<close>

fun offer :: "(string \<Rightarrow> 'b \<Rightarrow> 'c \<Rightarrow> bool \<times> 'c) \<Rightarrow> (string \<times> 'b) list \<Rightarrow> 'c \<Rightarrow> bool \<times> 'c" where
  "offer yield [] c = (True, c)"
| "offer yield ((name, b) # rest) c =
     (case yield name b c of
        (True, c') \<Rightarrow> offer yield rest c'
      | (False, c') \<Rightarrow> (False, c'))"

text \<open>
  A setup function is deterministic and touches only its arguments when what it stores
  in the two cells it is handed is a function of \<open>t\<close> and of what these two cells
  hold, and it leaves every other cell and the allocator alone.
\<close>

definition touches_only_arguments :: "('t, 'sut, 'state) builder_func \<Rightarrow> bool" where
  "touches_only_arguments f \<longleftrightarrow>
     (\<exists>g. \<forall>t sut state s.
        f t sut state s =
          s\<lparr>sut_cells := (sut_cells s)(sut := fst (g t (sut_cells s sut) (state_cells s state))),
            state_cells := (state_cells s)(state := snd (g t (sut_cells s sut) (state_cells s state)))\<rparr>)"

text \<open>Every setup function of the path is such a function.\<close>

definition well_behaved :: "('t, 'sut, 'state, 'assert) TestCase list \<Rightarrow> bool" where
  "well_behaved P \<longleftrightarrow>
     (\<forall>tc\<in>set P.
        (\<forall>f. StateBuilder tc = Some f \<longrightarrow> touches_only_arguments f)
      \<and> (\<forall>f. SpecificBuilder tc = Some f \<longrightarrow> touches_only_arguments f))"

text \<open>The two cells hold the same in both stores.\<close>

definition same_cells ::
  "nat \<Rightarrow> nat \<Rightarrow> ('sut, 'state) store \<Rightarrow> nat \<Rightarrow> nat \<Rightarrow> ('sut, 'state) store \<Rightarrow> bool" where
  "same_cells sut state s sut' state' s' \<longleftrightarrow>
     sut_cells s sut = sut_cells s' sut' \<and> state_cells s state = state_cells s' state'"

text \<open>Nothing but the two cells differs between the stores.\<close>

definition only_cells :: "nat \<Rightarrow> nat \<Rightarrow> ('sut, 'state) store \<Rightarrow> ('sut, 'state) store \<Rightarrow> bool" where
  "only_cells sut state s s' \<longleftrightarrow>
     next_addr s' = next_addr s
   \<and> (\<forall>a. a \<noteq> sut \<longrightarrow> sut_cells s' a = sut_cells s a)
   \<and> (\<forall>a. a \<noteq> state \<longrightarrow> state_cells s' a = state_cells s a)"

section \<open>Registries and paths of the tests\<close>

text \<open>A registry with the alternative counts 2, 1, 2, built by the registration calls.\<close>

definition registry_212 :: "(unit, unit, unit, unit) TestsBuilder" where
  "registry_212 =
     (let ts = \<lparr>TestCaseSets = []\<rparr>;
          ts = snd (Register () ''first'' ts);
          ts = snd (RegisterAlternative () ''first alternative'' ts);
          ts = snd (Register () ''second'' ts);
          ts = snd (Register () ''third'' ts);
          ts = snd (RegisterAlternative () ''third alternative'' ts)
      in ts)"

text \<open>
  The setup functions of \<open>TestTestsBuilder_MultipleTests_PreviousSpecificTestsAreIgnored\<close>:
  \<open>*sut += x\<close> and \<open>*sut = x\<close>.
\<close>

definition append_sut :: "string \<Rightarrow> (unit, string, int) builder_func" where
  "append_sut x t sut state s = s\<lparr>sut_cells := (sut_cells s)(sut := sut_cells s sut @ x)\<rparr>"

definition assign_sut :: "string \<Rightarrow> (unit, string, int) builder_func" where
  "assign_sut x t sut state s = s\<lparr>sut_cells := (sut_cells s)(sut := x)\<rparr>"

text \<open>
  Four stages of one alternative each, whose cumulative setups append a, b, c and d;
  and the same with a one-shot setup on the third stage that assigns the sentinel.
\<close>

definition registry_abcd :: "(unit, string, int, unit) TestsBuilder" where
  "registry_abcd =
     (let ts = \<lparr>TestCaseSets = []\<rparr>;
          (h, ts) = Register () ''1'' ts; ts = modify h (WithStateBuilder (append_sut ''a'')) ts;
          (h, ts) = Register () ''2'' ts; ts = modify h (WithStateBuilder (append_sut ''b'')) ts;
          (h, ts) = Register () ''3'' ts; ts = modify h (WithStateBuilder (append_sut ''c'')) ts;
          (h, ts) = Register () ''4'' ts; ts = modify h (WithStateBuilder (append_sut ''d'')) ts
      in ts)"

definition registry_sentinel :: "(unit, string, int, unit) TestsBuilder" where
  "registry_sentinel =
     (let ts = \<lparr>TestCaseSets = []\<rparr>;
          (h, ts) = Register () ''1'' ts; ts = modify h (WithStateBuilder (append_sut ''a'')) ts;
          (h, ts) = Register () ''2'' ts; ts = modify h (WithStateBuilder (append_sut ''b'')) ts;
          (h, ts) = Register () ''3'' ts; ts = modify h (WithStateBuilder (append_sut ''c'')) ts;
          ts = modify h (WithSpecificBuilder (assign_sut ''-'')) ts;
          (h, ts) = Register () ''4'' ts; ts = modify h (WithStateBuilder (append_sut ''d'')) ts
      in ts)"

text \<open>The single path of each of the two registries, written out.\<close>

definition stage :: "string \<Rightarrow> string \<Rightarrow> (unit, string, int, unit) TestCase" where
  "stage name x =
     \<lparr>TestName = name, StateBuilder = Some (append_sut x), SpecificBuilder = None, Assertion = ()\<rparr>"

definition path_abcd :: "(unit, string, int, unit) TestCase list" where
  "path_abcd = [stage ''1'' ''a'', stage ''2'' ''b'', stage ''3'' ''c'', stage ''4'' ''d'']"

definition path_sentinel :: "(unit, string, int, unit) TestCase list" where
  "path_sentinel =
     [stage ''1'' ''a'', stage ''2'' ''b'',
      (stage ''3'' ''c'')\<lparr>SpecificBuilder := Some (assign_sut ''-'')\<rparr>, stage ''4'' ''d'']"

text \<open>
  Two stages, the first with two alternatives; and two stages of one alternative each.
\<close>

definition registry_two_one :: "(unit, unit, unit, unit) TestsBuilder" where
  "registry_two_one =
     (let ts = \<lparr>TestCaseSets = []\<rparr>;
          ts = snd (Register () ''login'' ts);
          ts = snd (RegisterAlternative () ''token'' ts);
          ts = snd (Register () ''fetch'' ts)
      in ts)"

definition registry_plain :: "(unit, unit, unit, unit) TestsBuilder" where
  "registry_plain =
     (let ts = \<lparr>TestCaseSets = []\<rparr>;
          ts = snd (Register () ''login'' ts);
          ts = snd (Register () ''fetch'' ts)
      in ts)"

text \<open>Two stages registered under the same name, as the tests of the package do.\<close>

definition registry_same_name :: "(unit, unit, unit, unit) TestsBuilder" where
  "registry_same_name =
     (let ts = \<lparr>TestCaseSets = []\<rparr>;
          ts = snd (Register () ''TEST_NAME'' ts);
          ts = snd (Register () ''TEST_NAME'' ts)
      in ts)"

section \<open>Properties of the embedding\<close>

subsection \<open>The enumeration of the counter\<close>

lemma in_range_Cons [simp]:
  "in_range (c # cs) (r # rs) \<longleftrightarrow> 0 \<le> c \<and> c < r \<and> in_range cs rs"
  by (simp add: in_range_def)

lemma in_range_Nil [simp]: "in_range [] rs \<longleftrightarrow> rs = []" "in_range cs [] \<longleftrightarrow> cs = []"
  by (simp_all add: in_range_def)

lemma in_range_length: "in_range cs rs \<Longrightarrow> length cs = length rs"
  by (simp add: in_range_def list_all2_lengthD)

lemma rank_bounds: "in_range cs rs \<Longrightarrow> 0 \<le> rank cs rs \<and> rank cs rs < prod_list rs"
proof (induction cs rs rule: rank.induct)
  case (3 c cs r rs)
  then have ih: "0 \<le> rank cs rs" "rank cs rs + 1 \<le> prod_list rs" and c: "0 \<le> c" "c < r"
    by simp_all
  from c have "0 < r" by simp
  with ih(2) have "r * (rank cs rs + 1) \<le> r * prod_list rs"
    by (simp add: mult_left_mono)
  then have "c + r * rank cs rs < r * prod_list rs"
    using c by (simp add: algebra_simps)
  moreover have "0 \<le> r * rank cs rs" using ih(1) \<open>0 < r\<close> by simp
  ultimately show ?case using c by simp
qed simp_all

lemma unrank_rank: "in_range cs rs \<Longrightarrow> unrank rs (rank cs rs) = cs"
  by (induction cs rs rule: rank.induct) (simp_all add: mod_pos_pos_trivial div_pos_pos_trivial)

lemma rank_unrank:
  "\<forall>r\<in>set rs. 1 \<le> r \<Longrightarrow> 0 \<le> n \<Longrightarrow> n < prod_list rs \<Longrightarrow>
   in_range (unrank rs n) rs \<and> rank (unrank rs n) rs = n"
proof (induction rs arbitrary: n)
  case Nil
  then show ?case by simp
next
  case (Cons r rs)
  then have r: "0 < r" by simp
  have "0 \<le> n div r" using Cons.prems r by (simp add: pos_imp_zdiv_nonneg_iff)
  moreover have "n div r < prod_list rs"
  proof (rule ccontr)
    assume "\<not> n div r < prod_list rs"
    then have "r * prod_list rs \<le> r * (n div r)"
      using r by (simp add: mult_left_mono)
    moreover have "r * (n div r) + n mod r = n" by simp
    moreover have "0 \<le> n mod r" using r by simp
    moreover have "n < r * prod_list rs" using Cons.prems(3) by simp
    ultimately show False by linarith
  qed
  ultimately have "in_range (unrank rs (n div r)) rs \<and> rank (unrank rs (n div r)) rs = n div r"
    using Cons by simp
  then show ?case using r by simp
qed

lemma advance_rank:
  "in_range cs rs \<Longrightarrow>
   (case advance cs rs of
      Inl e \<Rightarrow> False
    | Inr None \<Rightarrow> cs = map (\<lambda>r. r - 1) rs \<and> rank cs rs = prod_list rs - 1
    | Inr (Some cs') \<Rightarrow> in_range cs' rs \<and> rank cs' rs = rank cs rs + 1)"
proof (induction cs rs rule: advance.induct)
  case (3 c cs r rs)
  show ?case
  proof (cases "c < r - 1")
    case True
    with 3 show ?thesis by simp
  next
    case False
    with 3 have c: "c = r - 1" and r: "0 < r" and ir: "in_range cs rs" by simp_all
    show ?thesis
    proof (cases "advance cs rs")
      case (Inl e)
      with 3(1) [OF False ir] show ?thesis by simp
    next
      case (Inr res)
      show ?thesis
      proof (cases res)
        case None
        with Inr 3(1) [OF False ir]
        have "cs = map (\<lambda>r. r - 1) rs \<and> rank cs rs = prod_list rs - 1"
          by auto
        then have cs: "cs = map (\<lambda>r. r - 1) rs" and rk: "rank cs rs = prod_list rs - 1"
          by blast+
        have "rank (c # cs) (r # rs) = (r - 1) + r * (prod_list rs - 1)"
          by (simp add: c rk)
        also have "\<dots> = prod_list (r # rs) - 1"
          by (simp add: algebra_simps)
        finally show ?thesis using Inr None False c cs by simp
      next
        case (Some cs')
        with Inr 3(1) [OF False ir]
        have "in_range cs' rs \<and> rank cs' rs = rank cs rs + 1"
          by auto
        then have ir': "in_range cs' rs" and rk: "rank cs' rs = rank cs rs + 1"
          by blast+
        have "rank (0 # cs') (r # rs) = r * (rank cs rs + 1)"
          by (simp add: rk)
        also have "\<dots> = rank (c # cs) (r # rs) + 1"
          by (simp add: c algebra_simps)
        finally show ?thesis using Inr Some False ir' r by simp
      qed
    qed
  qed
qed simp_all

lemma run_counter_from:
  "in_range (currIndexes idx) (alternativeCountList idx) \<Longrightarrow>
   run_counter idx =
     Inr (map (\<lambda>n. idx\<lparr>currIndexes := unrank (alternativeCountList idx) (int n)\<rparr>)
            [nat (rank (currIndexes idx) (alternativeCountList idx))..<
             nat (prod_list (alternativeCountList idx))],
          idx\<lparr>currIndexes := map (\<lambda>r. r - 1) (alternativeCountList idx)\<rparr>)"
proof (induction idx rule: run_counter.induct)
  case (1 idx)
  let ?rs = "alternativeCountList idx" and ?cs = "currIndexes idx"
  from rank_bounds [OF "1.prems"]
  have rb: "0 \<le> rank ?cs ?rs" "rank ?cs ?rs < prod_list ?rs" by simp_all
  have here: "unrank ?rs (rank ?cs ?rs) = ?cs"
    using unrank_rank [OF "1.prems"] by simp
  note ar = advance_rank [OF "1.prems"]
  show ?case
  proof (cases "advance ?cs ?rs")
    case (Inl e)
    with ar show ?thesis by simp
  next
    case (Inr res)
    show ?thesis
    proof (cases res)
      case None
      with Inr ar have "?cs = map (\<lambda>r. r - 1) ?rs \<and> rank ?cs ?rs = prod_list ?rs - 1"
        by auto
      then have cs: "?cs = map (\<lambda>r. r - 1) ?rs" and rk: "rank ?cs ?rs = prod_list ?rs - 1"
        by blast+
      have a: "AddOne idx = Inr (True, idx)"
        using Inr None by (simp add: AddOne_advance)
      have "nat (prod_list ?rs) = Suc (nat (rank ?cs ?rs))"
        using rk rb by simp
      then have u: "[nat (rank ?cs ?rs)..<nat (prod_list ?rs)] = [nat (rank ?cs ?rs)]"
        by simp
      have r: "run_counter idx = Inr ([idx], idx)"
        by (subst run_counter.simps) (simp add: a)
      have "idx\<lparr>currIndexes := ?cs\<rparr> = idx" by simp
      then show ?thesis
        unfolding r u using here cs rb(1) by simp
    next
      case (Some cs')
      with Inr ar have "in_range cs' ?rs \<and> rank cs' ?rs = rank ?cs ?rs + 1"
        by auto
      then have ir': "in_range cs' ?rs" and rk: "rank cs' ?rs = rank ?cs ?rs + 1"
        by blast+
      let ?idx' = "idx\<lparr>currIndexes := cs'\<rparr>"
      have a: "AddOne idx = Inr (False, ?idx')"
        using Inr Some by (simp add: AddOne_advance)
      have ir'': "in_range (currIndexes ?idx') (alternativeCountList ?idx')"
        using ir' by simp
      from rank_bounds [OF ir'] rk have lt: "rank ?cs ?rs + 1 < prod_list ?rs" by simp
      have ih: "run_counter ?idx' =
        Inr (map (\<lambda>n. idx\<lparr>currIndexes := unrank ?rs (int n)\<rparr>)
               [Suc (nat (rank ?cs ?rs))..<nat (prod_list ?rs)],
             idx\<lparr>currIndexes := map (\<lambda>r. r - 1) ?rs\<rparr>)"
        using "1.IH" [OF a refl _ ir''] rk rb by (simp add: nat_add_distrib)
      have u: "[nat (rank ?cs ?rs)..<nat (prod_list ?rs)] =
               nat (rank ?cs ?rs) # [Suc (nat (rank ?cs ?rs))..<nat (prod_list ?rs)]"
        using lt rb by (simp add: upt_conv_Cons)
      have "idx\<lparr>currIndexes := ?cs\<rparr> = idx" by simp
      then show ?thesis
        unfolding u using rb(1) by (subst run_counter.simps) (simp add: a ih here)
    qed
  qed
qed

lemma NewCurrIndexes_eq:
  "NewCurrIndexes acl = \<lparr>currIndexes = replicate (length acl) 0, alternativeCountList = acl\<rparr>"
  by (simp add: NewCurrIndexes_def zero_prefix)

lemma in_range_zero: "\<forall>r\<in>set rs. 1 \<le> r \<Longrightarrow> in_range (replicate (length rs) 0) rs"
  by (induction rs) simp_all

lemma rank_zero: "rank (replicate (length rs) 0) rs = 0"
  by (induction rs) simp_all

lemma run_counter_New:
  assumes "\<forall>r\<in>set rs. 1 \<le> r"
  shows "run_counter (NewCurrIndexes rs) =
     Inr (map (\<lambda>n. \<lparr>currIndexes = unrank rs (int n), alternativeCountList = rs\<rparr>)
            [0..<nat (prod_list rs)],
          \<lparr>currIndexes = map (\<lambda>r. r - 1) rs, alternativeCountList = rs\<rparr>)"
  using run_counter_from [of "NewCurrIndexes rs"] in_range_zero [OF assms]
  by (simp add: NewCurrIndexes_eq rank_zero)

lemma first_below_least:
  "first_below cs rs = Inr (Some j) \<Longrightarrow>
   j < length rs \<and> cs ! j < rs ! j - 1 \<and> (\<forall>i<j. \<not> cs ! i < rs ! i - 1)"
proof (induction cs rs arbitrary: j rule: first_below.induct)
  case (3 c cs r rs)
  show ?case
  proof (cases "c < r - 1")
    case True
    with 3 show ?thesis by simp
  next
    case False
    with "3.prems" obtain k where k: "first_below cs rs = Inr (Some k)" and j: "j = Suc k"
      by (auto split: sum.splits option.splits)
    from "3.IH" [OF False k] show ?thesis
      using False j by (auto simp: nth_Cons split: nat.splits)
  qed
qed simp_all

lemma advance_Some_first_below:
  "advance cs rs = Inr (Some cs') \<Longrightarrow> \<exists>j. first_below cs rs = Inr (Some j)"
proof (cases "first_below cs rs")
  case (Inl e)
  assume "advance cs rs = Inr (Some cs')"
  with first_below_advance(1) [OF Inl] show ?thesis by simp
next
  case (Inr res)
  assume a: "advance cs rs = Inr (Some cs')"
  show ?thesis
  proof (cases res)
    case None
    with Inr first_below_advance(2) a show ?thesis by simp
  next
    case (Some j)
    with Inr show ?thesis by simp
  qed
qed

lemma in_range_nth: "in_range cs rs \<Longrightarrow> i < length rs \<Longrightarrow> 0 \<le> cs ! i \<and> cs ! i < rs ! i"
  by (simp add: in_range_def list_all2_conv_all_nth)

lemma advance_lowest:
  assumes ir: "in_range cs rs" and a: "advance cs rs = Inr (Some cs')"
  shows "\<exists>j<length rs. (\<forall>i<j. cs ! i = rs ! i - 1) \<and> cs ! j < rs ! j - 1 \<and>
           cs' = replicate j 0 @ [cs ! j + 1] @ drop (Suc j) cs"
proof -
  from advance_Some_first_below [OF a] obtain j where j: "first_below cs rs = Inr (Some j)" ..
  from first_below_least [OF j]
  have jl: "j < length rs" and lt: "cs ! j < rs ! j - 1" and le: "\<forall>i<j. \<not> cs ! i < rs ! i - 1"
    by blast+
  from first_below_advance(3) [OF j] a
  have jc: "j < length cs" and cs': "cs' = replicate j 0 @ drop j (cs[j := cs ! j + 1])"
    by simp_all
  have d: "drop j cs = cs ! j # drop (Suc j) cs"
    using jc by (rule Cons_nth_drop_Suc [symmetric])
  have "drop j (cs[j := cs ! j + 1]) = (drop j cs)[0 := cs ! j + 1]"
    by (simp add: drop_update_swap)
  also have "\<dots> = [cs ! j + 1] @ drop (Suc j) cs"
    unfolding d by simp
  finally have dr: "drop j (cs[j := cs ! j + 1]) = [cs ! j + 1] @ drop (Suc j) cs" .
  have al: "\<forall>i<j. cs ! i = rs ! i - 1"
  proof (intro allI impI)
    fix i assume i: "i < j"
    with jl have "i < length rs" by simp
    from in_range_nth [OF ir this] have "cs ! i < rs ! i" by simp
    moreover from le i have "\<not> cs ! i < rs ! i - 1" by simp
    ultimately show "cs ! i = rs ! i - 1" by linarith
  qed
  have "cs' = replicate j 0 @ [cs ! j + 1] @ drop (Suc j) cs"
    unfolding cs' dr ..
  with jl al lt show ?thesis by blast
qed

lemma unrank_step:
  assumes rs: "\<forall>r\<in>set rs. 1 \<le> r" and n: "0 \<le> n" "n + 1 < prod_list rs"
  shows "advance (unrank rs n) rs = Inr (Some (unrank rs (n + 1)))"
proof -
  from rank_unrank [OF rs n(1)] n(2)
  have ir: "in_range (unrank rs n) rs" and rk: "rank (unrank rs n) rs = n" by simp_all
  from advance_rank [OF ir] rk n(2) obtain cs' where
    a: "advance (unrank rs n) rs = Inr (Some cs')" and ir': "in_range cs' rs"
    and rk': "rank cs' rs = n + 1"
    by (auto split: sum.splits option.splits)
  from unrank_rank [OF ir'] rk' have "cs' = unrank rs (n + 1)" by simp
  with a show ?thesis by simp
qed

lemma unrank_zero: "\<forall>r\<in>set rs. 1 \<le> r \<Longrightarrow> unrank rs 0 = replicate (length rs) 0"
  by (induction rs) simp_all

lemma unrank_last:
  assumes "\<forall>r\<in>set rs. 1 \<le> r"
  shows "unrank rs (prod_list rs - 1) = map (\<lambda>r. r - 1) rs"
proof -
  let ?m = "map (\<lambda>r. r - 1) rs"
  have ir: "in_range ?m rs" using assms by (induction rs) simp_all
  from advance_rank [OF ir] have "advance ?m rs = Inr None \<Longrightarrow> rank ?m rs = prod_list rs - 1"
    by simp
  moreover have "advance ?m rs = Inr None" by (induction rs) simp_all
  ultimately have "rank ?m rs = prod_list rs - 1" by simp
  with unrank_rank [OF ir] show ?thesis by simp
qed

lemma prod_list_pos: "\<forall>r\<in>set rs. 1 \<le> r \<Longrightarrow> 1 \<le> prod_list (rs :: int list)"
proof (induction rs)
  case Nil
  then show ?case by simp
next
  case (Cons r rs)
  then have "1 \<le> r" "1 \<le> prod_list rs" by simp_all
  then have "1 * 1 \<le> r * prod_list rs" by (intro mult_mono) simp_all
  then show ?case by simp
qed

lemma unrank_tuples:
  assumes rs: "\<forall>r\<in>set rs. 1 \<le> r"
  shows "distinct (map (\<lambda>n. unrank rs (int n)) [0..<nat (prod_list rs)])"
    and "set (map (\<lambda>n. unrank rs (int n)) [0..<nat (prod_list rs)]) = {cs. in_range cs rs}"
proof -
  have inj: "inj_on (\<lambda>n. unrank rs (int n)) {0..<nat (prod_list rs)}"
  proof (rule inj_onI)
    fix x y assume x: "x \<in> {0..<nat (prod_list rs)}" and y: "y \<in> {0..<nat (prod_list rs)}"
      and e: "unrank rs (int x) = unrank rs (int y)"
    from x rank_unrank [OF rs, of "int x"] have "int x = rank (unrank rs (int x)) rs" by simp
    also have "\<dots> = rank (unrank rs (int y)) rs" unfolding e ..
    also from y rank_unrank [OF rs, of "int y"] have "\<dots> = int y" by simp
    finally show "x = y" by simp
  qed
  then show "distinct (map (\<lambda>n. unrank rs (int n)) [0..<nat (prod_list rs)])"
    by (simp add: distinct_map)
  show "set (map (\<lambda>n. unrank rs (int n)) [0..<nat (prod_list rs)]) = {cs. in_range cs rs}"
  proof (intro set_eqI iffI)
    fix cs assume "cs \<in> set (map (\<lambda>n. unrank rs (int n)) [0..<nat (prod_list rs)])"
    then obtain n where "n < nat (prod_list rs)" and "cs = unrank rs (int n)" by auto
    with rank_unrank [OF rs, of "int n"] show "cs \<in> {cs. in_range cs rs}" by simp
  next
    fix cs assume "cs \<in> {cs. in_range cs rs}"
    then have ir: "in_range cs rs" by simp
    from rank_bounds [OF ir] have "nat (rank cs rs) < nat (prod_list rs)" by simp
    moreover have "unrank rs (int (nat (rank cs rs))) = cs"
      using rank_bounds [OF ir] unrank_rank [OF ir] by simp
    ultimately have "cs \<in> (\<lambda>n. unrank rs (int n)) ` {0..<nat (prod_list rs)}"
      by (intro image_eqI [of _ _ "nat (rank cs rs)"]) simp_all
    then show "cs \<in> set (map (\<lambda>n. unrank rs (int n)) [0..<nat (prod_list rs)])"
      by simp
  qed
qed

lemma labels_1312:
  "map_sum id (\<lambda>(out, final). map String out) (run_counter (NewCurrIndexes [1, 3, 1, 2])) =
     Inr [''0000'', ''0100'', ''0200'', ''0001'', ''0101'', ''0201'']"
  by (simp add: run_counter.simps AddOne_advance NewCurrIndexes_eq String_def Itoa_def digits.simps
      digit_char_def)

subsection \<open>What GenerateTestSets returns\<close>

lemma count_alternatives_fold:
  "fold (\<lambda>testCaseSet (alternativeCountList, moreThanOneAlternative).
             let numAlternatives = int (length (TestAlternatives testCaseSet))
             in (alternativeCountList @ [numAlternatives],
                 if numAlternatives > 1 then True else moreThanOneAlternative))
       sets (acl, m) = (acl @ counts sets, m \<or> several sets)"
  by (induction sets arbitrary: acl m) (auto simp: counts_def several_def)

lemma count_alternatives_eq: "count_alternatives sets = (counts sets, several sets)"
  unfolding count_alternatives_def count_alternatives_fold by simp

lemma pick_cases_path:
  "in_range (drop n indexes) (counts sets) \<Longrightarrow>
   pick_cases indexes n sets = Inr (path sets (drop n indexes))"
proof (induction sets arbitrary: n)
  case Nil
  then show ?case by (simp add: path_def)
next
  case (Cons s sets)
  from Cons.prems have "drop n indexes \<noteq> []" by (auto simp: counts_def)
  then have n: "n < length indexes" by simp
  then have d: "drop n indexes = indexes ! n # drop (Suc n) indexes"
    by (simp add: Cons_nth_drop_Suc)
  from Cons.prems have k: "0 \<le> indexes ! n" "nat (indexes ! n) < length (TestAlternatives s)"
    and r: "in_range (drop (Suc n) indexes) (counts sets)"
    unfolding d by (auto simp: counts_def nat_less_iff)
  have p: "path (s # sets) (drop n indexes) =
           TestAlternatives s ! nat (indexes ! n) # path sets (drop (Suc n) indexes)"
    unfolding d by (simp add: path_def)
  show ?case
    unfolding p using n k by (simp add: Cons.IH [OF r])
qed

lemma generate_loop_run:
  "run_counter idx = Inr (out, final) \<Longrightarrow>
   \<forall>c\<in>set out. in_range (currIndexes c) (counts sets) \<Longrightarrow>
   generate_loop sets m idx acc = Inr (acc @ map (make_set sets m) out)"
proof (induction idx arbitrary: out acc rule: run_counter.induct)
  case (1 idx)
  from "1.prems"(1) obtain isDone idx' where a: "AddOne idx = Inr (isDone, idx')"
    by (subst (asm) run_counter.simps) (auto split: sum.splits)
  show ?case
  proof (cases isDone)
    case True
    with "1.prems"(1) a have out: "out = [idx]"
      by (subst (asm) run_counter.simps) simp
    with "1.prems"(2) have "in_range (drop 0 (currIndexes idx)) (counts sets)" by simp
    from pick_cases_path [OF this] show ?thesis
      using a True out by (subst generate_loop.simps) (simp add: make_set_def)
  next
    case False
    with "1.prems"(1) a obtain out' where r: "run_counter idx' = Inr (out', final)"
      and out: "out = idx # out'"
      by (subst (asm) run_counter.simps) (auto split: sum.splits)
    from "1.prems"(2) out have ir: "in_range (drop 0 (currIndexes idx)) (counts sets)"
      and rest: "\<forall>c\<in>set out'. in_range (currIndexes c) (counts sets)"
      by simp_all
    from "1.IH" [OF a refl False r rest]
    have ih: "generate_loop sets m idx' (acc @ [make_set sets m idx]) =
              Inr ((acc @ [make_set sets m idx]) @ map (make_set sets m) out')" .
    show ?thesis
      using a False out pick_cases_path [OF ir] ih
      by (subst generate_loop.simps) (simp add: make_set_def)
  qed
qed

lemma wellformed_counts: "wellformed ts \<Longrightarrow> \<forall>r\<in>set (counts (TestCaseSets ts)). 1 \<le> r"
  by (auto simp: wellformed_def counts_def list_all_iff Suc_le_eq)

lemma GenerateTestSets_eq:
  assumes "wellformed ts"
  shows "GenerateTestSets ts =
     Inr (map (\<lambda>n. make_set (TestCaseSets ts) (several (TestCaseSets ts))
                     \<lparr>currIndexes = unrank (counts (TestCaseSets ts)) (int n),
                      alternativeCountList = counts (TestCaseSets ts)\<rparr>)
            [0..<nat (prod_list (counts (TestCaseSets ts)))])"
proof -
  let ?rs = "counts (TestCaseSets ts)"
  let ?f = "\<lambda>n. \<lparr>currIndexes = unrank ?rs (int n), alternativeCountList = ?rs\<rparr>"
  note rs = wellformed_counts [OF assms]
  have "\<forall>c\<in>set (map ?f [0..<nat (prod_list ?rs)]). in_range (currIndexes c) ?rs"
    using rank_unrank [OF rs] by auto
  from generate_loop_run [OF run_counter_New [OF rs] this]
  show ?thesis
    by (simp add: GenerateTestSets_def count_alternatives_eq)
qed

subsection \<open>What the iterator emits\<close>

lemma yield_cases_collect:
  "yield_cases zs zt collect tset i cases acc =
     (True, acc @ map (\<lambda>(i, curcase). (testName tset curcase, build zs zt (TestCases tset) i curcase))
                    (enumerate i cases))"
  by (induction cases arbitrary: i acc) (simp_all add: collect_def)

lemma yield_sets_collect:
  "yield_sets zs zt collect testSets acc = acc @ concat (map (pairs_of zs zt) testSets)"
  by (induction testSets arbitrary: acc) (simp_all add: yield_cases_collect pairs_of_def)

lemma emitted_eq:
  "emitted zs zt ts =
     (case GenerateTestSets ts of
        Inl e \<Rightarrow> Inl e
      | Inr testSets \<Rightarrow> Inr (concat (map (pairs_of zs zt) testSets)))"
  by (simp add: emitted_def Tests_def yield_sets_collect split: sum.splits)

lemma pick_cases_empty_set:
  "\<exists>s\<in>set sets. TestAlternatives s = [] \<Longrightarrow> pick_cases indexes n sets = Inl IndexOutOfRange"
proof (induction sets arbitrary: n)
  case Nil
  then show ?case by simp
next
  case (Cons s sets)
  show ?case
  proof (cases "TestAlternatives s = []")
    case True
    then show ?thesis by simp
  next
    case False
    with Cons.prems have "\<exists>s\<in>set sets. TestAlternatives s = []" by simp
    from Cons.IH [OF this] show ?thesis by (simp add: Let_def)
  qed
qed

lemma GenerateTestSets_illformed:
  assumes "\<not> wellformed ts"
  shows "GenerateTestSets ts = Inl IndexOutOfRange"
proof -
  from assms have "\<exists>s\<in>set (TestCaseSets ts). TestAlternatives s = []"
    by (auto simp: wellformed_def list_all_iff)
  from pick_cases_empty_set [OF this] show ?thesis
    by (simp add: GenerateTestSets_def count_alternatives_eq generate_loop.simps)
qed

lemma nat_prod_list_int: "nat (prod_list (map int xs)) = prod_list xs"
  by (induction xs) (simp_all add: nat_mult_distrib)

lemma counts_map: "counts sets = map int (map (\<lambda>s. length (TestAlternatives s)) sets)"
  by (simp add: counts_def)

text \<open>The registration calls establish and keep the invariant of the registry.\<close>

lemma wellformed_empty: "wellformed \<lparr>TestCaseSets = []\<rparr>"
  by (simp add: wellformed_def)

lemma wellformed_Register: "wellformed ts \<Longrightarrow> wellformed (snd (Register za name ts))"
  by (simp add: wellformed_def Register_def)

lemma wellformed_RegisterAlternative:
  "wellformed ts \<Longrightarrow> wellformed (snd (RegisterAlternative za name ts))"
  by (auto simp: wellformed_def RegisterAlternative_def Let_def list_all_iff
      dest!: set_update_subset_insert [THEN subsetD])

lemma wellformed_modify: "wellformed ts \<Longrightarrow> wellformed (modify h f ts)"
  by (auto simp: wellformed_def modify_def deref_def list_all_iff split: option.splits if_splits
      dest!: set_update_subset_insert [THEN subsetD])

lemma registry_212_sets:
  "TestCaseSets registry_212 =
     [\<lparr>TestAlternatives = [new_TestCase () ''first'', new_TestCase () ''first alternative'']\<rparr>,
      \<lparr>TestAlternatives = [new_TestCase () ''second'']\<rparr>,
      \<lparr>TestAlternatives = [new_TestCase () ''third'', new_TestCase () ''third alternative'']\<rparr>]"
  by (simp add: registry_212_def Register_def RegisterAlternative_def Let_def)

lemma message_example:
  "no_test_registered ''variantA'' =
     ''Cannot create alternative 'variantA', since no test is registered yet. Please Use builder.Register(name) first, before defining alternatives''"
  by (simp add: no_test_registered_def)

lemma deref_update_other:
  assumes "deref ts h = Some tc"
  shows "deref (ts\<lparr>TestCaseSets := (TestCaseSets ts)[length (TestCaseSets ts) - 1 :=
            (TestCaseSets ts ! (length (TestCaseSets ts) - 1))\<lparr>TestAlternatives :=
               TestAlternatives (TestCaseSets ts ! (length (TestCaseSets ts) - 1)) @ [x]\<rparr>]\<rparr>) h = Some tc"
  using assms
  by (cases h) (auto simp: deref_def nth_list_update nth_append split: if_splits)

subsection \<open>The builder, as the specification words it\<close>

lemma build_loop_spec:
  "j \<le> i \<Longrightarrow> i < length P \<Longrightarrow>
   build_loop t sut state i j (drop j P) (s, calls) =
     one_shot_setup t sut state P i (fold (cumulative_setup t sut state P) [j..<Suc i] (s, calls))"
proof (induction "i - j" arbitrary: j s calls)
  case 0
  then have j: "j = i" by simp
  from 0 have d: "drop i P = P ! i # drop (Suc i) P" by (simp add: Cons_nth_drop_Suc)
  show ?case
    unfolding j d
    by (simp add: cumulative_setup_def one_shot_setup_def split: option.splits)
next
  case (Suc n)
  then have lt: "j < i" and jl: "j < length P" by simp_all
  then have d: "drop j P = P ! j # drop (Suc j) P" by (simp add: Cons_nth_drop_Suc)
  have u: "[j..<Suc i] = j # [Suc j..<Suc i]" using lt by (simp add: upt_conv_Cons)
  from Suc have n: "n = i - Suc j" and le: "Suc j \<le> i" by simp_all
  note ih = Suc.hyps(1) [OF n le Suc.prems(2)]
  show ?case
    unfolding d u using lt
    by (simp add: ih cumulative_setup_def split: option.splits)
qed

lemma build_run_spec:
  "i < length P \<Longrightarrow> build_run zs zt P i t s = spec_build zs zt P i t s"
  using build_loop_spec [of 0 i P]
  by (simp add: build_run_def spec_build_def split: prod.splits)

text \<open>The calls of the cumulative part, whatever the store.\<close>

lemma cumulative_calls:
  "snd (fold (cumulative_setup t sut state P) js r) =
     snd r @ map StateBuilderCall (filter (\<lambda>j. StateBuilder (P ! j) \<noteq> None) js)"
  by (induction js arbitrary: r) (auto simp: cumulative_setup_def split: option.splits)

lemma spec_build_calls:
  "snd (snd (spec_build zs zt P i t s)) =
     map StateBuilderCall (filter (\<lambda>j. StateBuilder (P ! j) \<noteq> None) [0..<Suc i])
     @ (if SpecificBuilder (P ! i) = None then [] else [SpecificBuilderCall i])"
proof -
  obtain sut s1 where a: "new_sut zs s = (sut, s1)" by (cases "new_sut zs s")
  obtain state s2 where b: "new_state zt s1 = (state, s2)" by (cases "new_state zt s1")
  let ?r = "fold (cumulative_setup t sut state P) [0..<Suc i] (s2, [])"
  obtain s' calls where c: "one_shot_setup t sut state P i ?r = (s', calls)"
    by (cases "one_shot_setup t sut state P i ?r")
  have "spec_build zs zt P i t s = ((sut, state), s', calls)"
    unfolding spec_build_def a b Let_def prod.case c ..
  moreover have "snd (one_shot_setup t sut state P i ?r) =
        snd ?r @ (if SpecificBuilder (P ! i) = None then [] else [SpecificBuilderCall i])"
    by (simp add: one_shot_setup_def split: option.splits)
  ultimately show ?thesis
    unfolding c cumulative_calls by simp
qed

text \<open>The calls of the loop, also for a position outside the path.\<close>

lemma build_loop_calls:
  "j \<le> i \<Longrightarrow> build_loop t sut state i j cases (s, calls) = (s', calls') \<Longrightarrow>
   set calls' \<subseteq> set calls \<union> StateBuilderCall ` {j..i} \<union> {SpecificBuilderCall i}"
proof (induction cases arbitrary: j s calls)
  case Nil
  then show ?case by auto
next
  case (Cons tc cases)
  obtain s1 calls1 where c: "(case StateBuilder tc of
               None \<Rightarrow> (s, calls)
             | Some builder \<Rightarrow> (builder t sut state s, calls @ [StateBuilderCall j])) = (s1, calls1)"
    by (cases "case StateBuilder tc of
               None \<Rightarrow> (s, calls)
             | Some builder \<Rightarrow> (builder t sut state s, calls @ [StateBuilderCall j])")
  then have c1: "set calls1 \<subseteq> set calls \<union> {StateBuilderCall j}"
    by (auto split: option.splits)
  show ?case
  proof (cases "j < i")
    case True
    with Cons.prems c have "build_loop t sut state i (Suc j) cases (s1, calls1) = (s', calls')"
      by simp
    from Cons.IH [OF _ this] True
    have "set calls' \<subseteq> set calls1 \<union> StateBuilderCall ` {Suc j..i} \<union> {SpecificBuilderCall i}"
      by simp
    moreover have "StateBuilderCall ` {Suc j..i} \<subseteq> StateBuilderCall ` {j..i}"
      by auto
    moreover have "StateBuilderCall j \<in> StateBuilderCall ` {j..i}"
      using True by simp
    ultimately show ?thesis using c1 by blast
  next
    case False
    with Cons.prems have j: "j = i" by simp
    from Cons.prems c False have "set calls' \<subseteq> set calls1 \<union> {SpecificBuilderCall j}"
      by (auto split: option.splits)
    with c1 j show ?thesis by auto
  qed
qed

subsection \<open>The four-stage scenario of the tests\<close>

lemma registry_abcd_sets:
  "registry_abcd = \<lparr>TestCaseSets = map (\<lambda>tc. \<lparr>TestAlternatives = [tc]\<rparr>) path_abcd\<rparr>"
  by (simp add: registry_abcd_def Register_def Let_def modify_def deref_def new_TestCase_def
      WithStateBuilder_def path_abcd_def stage_def)

lemma registry_sentinel_sets:
  "registry_sentinel = \<lparr>TestCaseSets = map (\<lambda>tc. \<lparr>TestAlternatives = [tc]\<rparr>) path_sentinel\<rparr>"
  by (simp add: registry_sentinel_def Register_def Let_def modify_def deref_def new_TestCase_def
      WithStateBuilder_def WithSpecificBuilder_def path_sentinel_def stage_def)

lemma single_alternatives:
  "GenerateTestSets \<lparr>TestCaseSets = map (\<lambda>tc. \<lparr>TestAlternatives = [tc]\<rparr>) P\<rparr> =
     Inr [\<lparr>TestCases = P, TestSetName = []\<rparr>]"
proof -
  let ?ts = "\<lparr>TestCaseSets = map (\<lambda>tc. \<lparr>TestAlternatives = [tc]\<rparr>) P\<rparr>"
  have w: "wellformed ?ts" by (simp add: wellformed_def list_all_iff)
  have c: "counts (TestCaseSets ?ts) = replicate (length P) 1"
    by (simp add: counts_def map_replicate_const comp_def)
  have p: "prod_list (replicate n (1::int)) = 1" for n by (induction n) simp_all
  have u: "unrank (replicate n 1) 0 = replicate n 0" for n by (induction n) simp_all
  have s: "\<not> several (TestCaseSets ?ts)" by (simp add: several_def list_ex_iff)
  have "path (map (\<lambda>tc. \<lparr>TestAlternatives = [tc]\<rparr>) P) (replicate (length P) 0) = P"
    by (induction P) (simp_all add: path_def)
  then show ?thesis
    unfolding GenerateTestSets_eq [OF w] c p using s by (simp add: make_set_def u)
qed

lemma registry_abcd_paths:
  "GenerateTestSets registry_abcd = Inr [\<lparr>TestCases = path_abcd, TestSetName = []\<rparr>]"
  unfolding registry_abcd_sets by (rule single_alternatives)

lemma registry_sentinel_paths:
  "GenerateTestSets registry_sentinel = Inr [\<lparr>TestCases = path_sentinel, TestSetName = []\<rparr>]"
  unfolding registry_sentinel_sets by (rule single_alternatives)

lemma abcd_suts:
  "map_sum id (map (\<lambda>(name, b). SUT (fst (b t s)))) (emitted [] 0 registry_abcd) =
     Inr [''a'', ''ab'', ''abc'', ''abcd'']"
  by (simp add: emitted_eq registry_abcd_paths pairs_of_def enumerate_eq_zip upt_rec
      build_def build_run_def new_sut_def new_state_def path_abcd_def stage_def append_sut_def)

lemma sentinel_suts:
  "map_sum id (map (\<lambda>(name, b). SUT (fst (b t s)))) (emitted [] 0 registry_sentinel) =
     Inr [''a'', ''ab'', ''-'', ''abcd'']"
  by (simp add: emitted_eq registry_sentinel_paths pairs_of_def enumerate_eq_zip upt_rec
      build_def build_run_def new_sut_def new_state_def path_sentinel_def stage_def append_sut_def
      assign_sut_def)

lemma spec_build_cells:
  "fst (spec_build zs zt P i t s) = (next_addr s, Suc (next_addr s))"
  by (simp add: spec_build_def new_sut_def new_state_def Let_def split: prod.splits)

lemma build_spec:
  "i < length P \<Longrightarrow>
   build zs zt P i (P ! i) t s =
     (let ((sut, state), s', calls) = spec_build zs zt P i t s
      in (\<lparr>SUT = sut_cells s' sut, State = state_cells s' state, Assert = Assertion (P ! i)\<rparr>, s'))"
  by (simp add: build_def build_run_spec)

lemma spec_build_agree:
  assumes st: "\<forall>j\<le>i. StateBuilder (P ! j) = StateBuilder (P' ! j)"
    and sp: "SpecificBuilder (P ! i) = SpecificBuilder (P' ! i)"
  shows "spec_build zs zt P i t s = spec_build zs zt P' i t s"
proof -
  have c: "fold (cumulative_setup t sut state P) [0..<Suc i] r =
           fold (cumulative_setup t sut state P') [0..<Suc i] r" for sut state r
  proof (rule fold_cong)
    fix j assume "j \<in> set [0..<Suc i]"
    then have "j \<le> i" by auto
    with st show "cumulative_setup t sut state P j = cumulative_setup t sut state P' j"
      by (simp add: cumulative_setup_def fun_eq_iff)
  qed simp_all
  have o: "one_shot_setup t sut state P i = one_shot_setup t sut state P' i" for sut state
    using sp by (simp add: one_shot_setup_def fun_eq_iff)
  show ?thesis
    unfolding spec_build_def c o ..
qed

lemma offer_append:
  "offer yield (xs @ ys) c =
     (case offer yield xs c of (True, c') \<Rightarrow> offer yield ys c' | (False, c') \<Rightarrow> (False, c'))"
  by (induction xs arbitrary: c) (auto split: prod.splits bool.splits)

lemma yield_cases_offer:
  "yield_cases zs zt yield tset i cases c =
     offer yield (map (\<lambda>(i, curcase). (testName tset curcase, build zs zt (TestCases tset) i curcase))
                    (enumerate i cases)) c"
  by (induction cases arbitrary: i c) (auto split: prod.splits bool.splits)

lemma yield_sets_offer:
  "yield_sets zs zt yield testSets c =
     snd (offer yield (concat (map (pairs_of zs zt) testSets)) c)"
  by (induction testSets arbitrary: c)
     (auto simp: offer_append yield_cases_offer pairs_of_def split: prod.splits bool.splits)

lemma Tests_offer:
  "Tests zs zt ts yield c =
     (case emitted zs zt ts of Inl e \<Rightarrow> Inl e | Inr pairs \<Rightarrow> Inr (snd (offer yield pairs c)))"
  by (simp add: Tests_def emitted_eq yield_sets_offer split: sum.splits)

lemma enumerate_positions:
  "map (\<lambda>(i, x). f i x) (enumerate 0 xs) = map (\<lambda>i. f i (xs ! i)) [0..<length xs]"
  by (rule nth_equalityI) (simp_all add: nth_enumerate_eq)

lemma path_length: "in_range cs (counts sets) \<Longrightarrow> length (path sets cs) = length sets"
  using in_range_length [of cs "counts sets"] by (simp add: path_def counts_def)

lemma digits_nonempty: "digits n \<noteq> []"
  by (subst digits.simps) simp

lemma String_nonempty: "currIndexes idx \<noteq> [] \<Longrightarrow> String idx \<noteq> []"
  by (cases "currIndexes idx") (auto simp: String_def Itoa_def digits_nonempty)

lemma several_nonempty: "several sets \<Longrightarrow> sets \<noteq> []"
  by (auto simp: several_def)

text \<open>The emitted pairs of a well-formed registry, by the states of the counter.\<close>

lemma emitted_by_counter:
  assumes w: "wellformed ts"
  shows "\<exists>out final.
     run_counter (NewCurrIndexes (counts (TestCaseSets ts))) = Inr (out, final)
   \<and> (\<forall>idx\<in>set out. in_range (currIndexes idx) (counts (TestCaseSets ts)))
   \<and> GenerateTestSets ts = Inr (map (make_set (TestCaseSets ts) (several (TestCaseSets ts))) out)"
proof -
  let ?rs = "counts (TestCaseSets ts)"
  let ?f = "\<lambda>n. \<lparr>currIndexes = unrank ?rs (int n), alternativeCountList = ?rs\<rparr>"
  let ?out = "map ?f [0..<nat (prod_list ?rs)]"
  note rs = wellformed_counts [OF w]
  have "\<forall>idx\<in>set ?out. in_range (currIndexes idx) ?rs"
    using rank_unrank [OF rs] by auto
  moreover have "GenerateTestSets ts =
       Inr (map (make_set (TestCaseSets ts) (several (TestCaseSets ts))) ?out)"
    by (simp add: GenerateTestSets_eq [OF w] comp_def)
  ultimately show ?thesis using run_counter_New [OF rs] by blast
qed

lemma run_counter_hd: "run_counter idx = Inr (out, final) \<Longrightarrow> out \<noteq> [] \<and> hd out = idx"
  by (subst (asm) run_counter.simps) (auto split: sum.splits if_splits)

lemma pairs_of_make_set:
  assumes "in_range (currIndexes idx) (counts sets)"
  shows "pairs_of zs zt (make_set sets m idx) =
     map (\<lambda>i. (testName (make_set sets m idx) (path sets (currIndexes idx) ! i),
               build zs zt (path sets (currIndexes idx)) i (path sets (currIndexes idx) ! i)))
       [0..<length sets]"
proof -
  have t: "TestCases (make_set sets m idx) = path sets (currIndexes idx)"
    by (simp add: make_set_def)
  show ?thesis
    unfolding pairs_of_def t enumerate_positions path_length [OF assms] ..
qed

lemma single_counts:
  "\<forall>s\<in>set sets. length (TestAlternatives s) = 1 \<Longrightarrow>
   sets = map (\<lambda>tc. \<lparr>TestAlternatives = [tc]\<rparr>) (map (\<lambda>s. hd (TestAlternatives s)) sets)"
proof (induction sets)
  case Nil
  then show ?case by simp
next
  case (Cons s sets)
  then have "length (TestAlternatives s) = 1" by simp
  then have "TestAlternatives s = [hd (TestAlternatives s)]"
    by (cases "TestAlternatives s") simp_all
  then have "s = \<lparr>TestAlternatives = [hd (TestAlternatives s)]\<rparr>"
    by (cases s) simp
  with Cons show ?case by simp
qed

lemma testName_plain: "testName \<lparr>TestCases = P, TestSetName = []\<rparr> tc = TestName tc"
  by (simp add: testName_def)

lemma testName_labelled:
  "m \<Longrightarrow> currIndexes idx \<noteq> [] \<Longrightarrow>
   testName (make_set sets m idx) tc = ''Test Alternative #'' @ String idx @ ''_'' @ TestName tc"
  by (simp add: testName_def make_set_def String_nonempty)

lemma registry_two_one_eq:
  "registry_two_one =
     \<lparr>TestCaseSets = [\<lparr>TestAlternatives = [new_TestCase () ''login'', new_TestCase () ''token'']\<rparr>,
                      \<lparr>TestAlternatives = [new_TestCase () ''fetch'']\<rparr>]\<rparr>"
  by (simp add: registry_two_one_def Register_def RegisterAlternative_def Let_def)

lemma registry_plain_eq:
  "registry_plain =
     \<lparr>TestCaseSets = [\<lparr>TestAlternatives = [new_TestCase () ''login'']\<rparr>,
                      \<lparr>TestAlternatives = [new_TestCase () ''fetch'']\<rparr>]\<rparr>"
  by (simp add: registry_plain_def Register_def Let_def)

lemma pairs_of_names:
  "map fst (pairs_of zs zt tset) = map (testName tset) (TestCases tset)"
  by (rule nth_equalityI) (simp_all add: pairs_of_def nth_enumerate_eq)

lemma emitted_names:
  assumes "wellformed ts"
  shows "\<exists>out final.
     run_counter (NewCurrIndexes (counts (TestCaseSets ts))) = Inr (out, final)
   \<and> (\<forall>idx\<in>set out. in_range (currIndexes idx) (counts (TestCaseSets ts)))
   \<and> map_sum id (map fst) (emitted zs zt ts) =
       Inr (concat (map (\<lambda>idx.
              map (testName (make_set (TestCaseSets ts) (several (TestCaseSets ts)) idx))
                (path (TestCaseSets ts) (currIndexes idx))) out))"
proof -
  let ?sets = "TestCaseSets ts"
  from emitted_by_counter [OF assms] obtain out final where
    r: "run_counter (NewCurrIndexes (counts ?sets)) = Inr (out, final)"
    and ir: "\<forall>idx\<in>set out. in_range (currIndexes idx) (counts ?sets)"
    and g: "GenerateTestSets ts = Inr (map (make_set ?sets (several ?sets)) out)"
    by blast
  note nm = pairs_of_names
  have t: "TestCases (make_set ?sets m idx) = path ?sets (currIndexes idx)" for m idx
    by (simp add: make_set_def)
  have "map fst (pairs_of zs zt (make_set ?sets m idx)) =
        map (testName (make_set ?sets m idx)) (path ?sets (currIndexes idx))" for m idx
    unfolding nm t ..
  then have "map_sum id (map fst) (emitted zs zt ts) =
       Inr (concat (map (\<lambda>idx.
              map (testName (make_set ?sets (several ?sets) idx)) (path ?sets (currIndexes idx))) out))"
    by (simp add: emitted_eq g map_concat comp_def)
  with r ir show ?thesis by blast
qed

subsection \<open>Labels of single digits\<close>

lemma digit_char_code: "d < 10 \<Longrightarrow> of_char (digit_char d) = 48 + d"
proof -
  assume "d < 10"
  then have "d = 0 \<or> d = 1 \<or> d = 2 \<or> d = 3 \<or> d = 4 \<or> d = 5 \<or> d = 6 \<or> d = 7 \<or> d = 8 \<or> d = 9"
    by arith
  then show ?thesis
    by (auto simp: digit_char_def)
qed

lemma digit_char_inj: "a < 10 \<Longrightarrow> b < 10 \<Longrightarrow> digit_char a = digit_char b \<Longrightarrow> a = b"
proof -
  assume a: "a < 10" and b: "b < 10" and e: "digit_char a = digit_char b"
  from e have "(of_char (digit_char a) :: nat) = of_char (digit_char b)" by simp
  then show "a = b" by (simp add: digit_char_code a b)
qed

lemma Itoa_digit: "0 \<le> c \<Longrightarrow> c < 10 \<Longrightarrow> Itoa c = [digit_char (nat c)]"
proof -
  assume c: "0 \<le> c" "c < 10"
  then have "nat c < 10" by simp
  then have "digits (nat c) = [digit_char (nat c)]" by (subst digits.simps) simp
  with c show ?thesis by (simp add: Itoa_def)
qed

lemma label_digits:
  "\<forall>c\<in>set cs. 0 \<le> c \<and> c < 10 \<Longrightarrow> concat (map Itoa cs) = map (\<lambda>c. digit_char (nat c)) cs"
  by (induction cs) (simp_all add: Itoa_digit)

lemma label_inj:
  assumes a: "\<forall>c\<in>set cs. 0 \<le> c \<and> c < 10" and b: "\<forall>c\<in>set ds. 0 \<le> c \<and> c < 10"
    and e: "concat (map Itoa cs) = concat (map Itoa ds)"
  shows "cs = ds"
proof -
  from e have "map (\<lambda>c. digit_char (nat c)) cs = map (\<lambda>c. digit_char (nat c)) ds"
    by (simp add: label_digits [OF a] label_digits [OF b])
  moreover have "inj_on (\<lambda>c. digit_char (nat c)) (set cs \<union> set ds)"
  proof (rule inj_onI)
    fix x y assume x: "x \<in> set cs \<union> set ds" and y: "y \<in> set cs \<union> set ds"
      and d: "digit_char (nat x) = digit_char (nat y)"
    from x a b have x': "0 \<le> x" "nat x < 10" by auto
    from y a b have y': "0 \<le> y" "nat y < 10" by auto
    from digit_char_inj [OF x'(2) y'(2) d] x'(1) y'(1) show "x = y" by simp
  qed
  ultimately show ?thesis by (rule map_inj_on)
qed

lemma in_range_digits:
  assumes "in_range cs rs" and "\<forall>r\<in>set rs. r \<le> 10"
  shows "\<forall>c\<in>set cs. 0 \<le> c \<and> c < 10"
proof
  fix c assume "c \<in> set cs"
  then obtain i where i: "i < length cs" and c: "cs ! i = c" by (auto simp: in_set_conv_nth)
  from i in_range_length [OF assms(1)] have il: "i < length rs" by simp
  from in_range_nth [OF assms(1) il] have "0 \<le> cs ! i" "cs ! i < rs ! i" by simp_all
  moreover from assms(2) il have "rs ! i \<le> 10" by simp
  ultimately show "0 \<le> c \<and> c < 10" using c by simp
qed

lemma distinct_concat_map:
  "distinct xs \<Longrightarrow> (\<forall>x\<in>set xs. distinct (f x)) \<Longrightarrow>
   (\<forall>x\<in>set xs. \<forall>y\<in>set xs. x \<noteq> y \<longrightarrow> set (f x) \<inter> set (f y) = {}) \<Longrightarrow>
   distinct (concat (map f xs))"
proof (induction xs)
  case Nil
  then show ?case by simp
next
  case (Cons x xs)
  then have "distinct (concat (map f xs))" by simp
  moreover from Cons.prems have "distinct (f x)" by simp
  moreover from Cons.prems have "\<forall>y\<in>set xs. set (f x) \<inter> set (f y) = {}" by auto
  ultimately show ?case by auto
qed

lemma not_several_one:
  assumes "wellformed ts" and "\<not> several (TestCaseSets ts)"
  shows "prod_list (counts (TestCaseSets ts)) = 1"
proof -
  have "\<forall>s\<in>set (TestCaseSets ts). int (length (TestAlternatives s)) = 1"
  proof
    fix s assume s: "s \<in> set (TestCaseSets ts)"
    with assms(1) have "TestAlternatives s \<noteq> []" by (simp add: wellformed_def list_all_iff)
    moreover from s assms(2) have "\<not> 1 < length (TestAlternatives s)"
      by (auto simp: several_def list_ex_iff)
    ultimately show "int (length (TestAlternatives s)) = 1"
      by (cases "TestAlternatives s") simp_all
  qed
  then have "counts (TestCaseSets ts) = replicate (length (TestCaseSets ts)) 1"
    by (simp add: counts_def map_replicate_const [symmetric] cong: map_cong)
  moreover have "prod_list (replicate n (1::int)) = 1" for n by (induction n) simp_all
  ultimately show ?thesis by simp
qed

lemma testName_inj: "testName tset a = testName tset b \<Longrightarrow> TestName a = TestName b"
  by (simp add: testName_def split: if_splits)

lemma registry_same_name_eq:
  "registry_same_name =
     \<lparr>TestCaseSets = map (\<lambda>tc. \<lparr>TestAlternatives = [tc]\<rparr>)
        [new_TestCase () ''TEST_NAME'', new_TestCase () ''TEST_NAME'']\<rparr>"
  by (simp add: registry_same_name_def Register_def Let_def)

text \<open>
  With more than ten alternatives in a set the label no longer tells the tuples apart:
  the tuples 11, 0, 0 and 1, 10, 0 are both written 1100, and a test case that both
  paths share gets the same name in both.
\<close>

lemma label_collision:
  "String \<lparr>currIndexes = [11, 0, 0], alternativeCountList = [12, 11, 1]\<rparr> = ''1100''
   \<and> String \<lparr>currIndexes = [1, 10, 0], alternativeCountList = [12, 11, 1]\<rparr> = ''1100''
   \<and> testName (make_set sets True \<lparr>currIndexes = [11, 0, 0], alternativeCountList = [12, 11, 1]\<rparr>) tc
     = testName (make_set sets True \<lparr>currIndexes = [1, 10, 0], alternativeCountList = [12, 11, 1]\<rparr>) tc"
  by (simp add: String_def Itoa_def digits.simps digit_char_def testName_def make_set_def)

lemma labelled_names_disjoint:
  assumes cs: "\<forall>c\<in>set cs. 0 \<le> c \<and> c < 10" and ds: "\<forall>c\<in>set ds. 0 \<le> c \<and> c < 10"
    and len: "length cs = length ds" and ne: "cs \<noteq> ds"
  shows "''Test Alternative #'' @ concat (map Itoa cs) @ ''_'' @ x
       \<noteq> ''Test Alternative #'' @ concat (map Itoa ds) @ ''_'' @ y"
proof
  assume "''Test Alternative #'' @ concat (map Itoa cs) @ ''_'' @ x
        = ''Test Alternative #'' @ concat (map Itoa ds) @ ''_'' @ y"
  then have e: "concat (map Itoa cs) @ (''_'' @ x) = concat (map Itoa ds) @ (''_'' @ y)"
    by simp
  have "length (concat (map Itoa cs)) = length (concat (map Itoa ds))"
    by (simp add: label_digits [OF cs] label_digits [OF ds] len)
  with e have "concat (map Itoa cs) = concat (map Itoa ds)"
    by (simp add: append_eq_append_conv)
  from label_inj [OF cs ds this] ne show False by simp
qed

subsection \<open>Setup functions that touch only their arguments\<close>

lemma only_cells_refl: "only_cells sut state s s"
  by (simp add: only_cells_def)

lemma only_cells_trans:
  "only_cells sut state s s' \<Longrightarrow> only_cells sut state s' s'' \<Longrightarrow> only_cells sut state s s''"
  by (simp add: only_cells_def)

lemma touches_only_arguments_same:
  "touches_only_arguments f \<Longrightarrow> same_cells sut state s sut' state' s' \<Longrightarrow>
   same_cells sut state (f t sut state s) sut' state' (f t sut' state' s')"
  by (auto simp: touches_only_arguments_def same_cells_def)

lemma touches_only_arguments_frame:
  "touches_only_arguments f \<Longrightarrow> only_cells sut state s (f t sut state s)"
  by (auto simp: touches_only_arguments_def only_cells_def)

lemma build_loop_local:
  assumes "well_behaved cases"
    and "build_loop t sut state i j cases (s, calls) = (s3, calls3)"
    and "build_loop t sut' state' i j cases (s', calls) = (s3', calls3')"
    and "same_cells sut state s sut' state' s'"
  shows "same_cells sut state s3 sut' state' s3' \<and> calls3 = calls3' \<and> only_cells sut state s s3"
  using assms
proof (induction cases arbitrary: j s s' calls)
  case Nil
  then show ?case by (simp add: only_cells_refl)
next
  case (Cons tc cases)
  from Cons.prems(1) have wb: "well_behaved cases"
    and st: "\<And>f. StateBuilder tc = Some f \<Longrightarrow> touches_only_arguments f"
    and sp: "\<And>f. SpecificBuilder tc = Some f \<Longrightarrow> touches_only_arguments f"
    by (simp_all add: well_behaved_def)
  obtain s1 calls1 where a: "(case StateBuilder tc of
               None \<Rightarrow> (s, calls)
             | Some builder \<Rightarrow> (builder t sut state s, calls @ [StateBuilderCall j])) = (s1, calls1)"
    by (cases "case StateBuilder tc of
               None \<Rightarrow> (s, calls)
             | Some builder \<Rightarrow> (builder t sut state s, calls @ [StateBuilderCall j])")
  obtain s1' calls1' where a': "(case StateBuilder tc of
               None \<Rightarrow> (s', calls)
             | Some builder \<Rightarrow> (builder t sut' state' s', calls @ [StateBuilderCall j])) = (s1', calls1')"
    by (cases "case StateBuilder tc of
               None \<Rightarrow> (s', calls)
             | Some builder \<Rightarrow> (builder t sut' state' s', calls @ [StateBuilderCall j])")
  from a a' Cons.prems(4) st
  have 1: "same_cells sut state s1 sut' state' s1'" and c1: "calls1' = calls1"
    and f1: "only_cells sut state s s1"
    by (auto split: option.splits
        simp: only_cells_refl touches_only_arguments_same touches_only_arguments_frame)
  show ?case
  proof (cases "j < i")
    case True
    with Cons.prems(2) a have l: "build_loop t sut state i (Suc j) cases (s1, calls1) = (s3, calls3)"
      by simp
    from True Cons.prems(3) a' c1
    have l': "build_loop t sut' state' i (Suc j) cases (s1', calls1) = (s3', calls3')"
      by simp
    from Cons.IH [OF wb l l' 1] f1 show ?thesis
      by (auto intro: only_cells_trans)
  next
    case False
    with Cons.prems(2) a have l: "(case SpecificBuilder tc of
                 None \<Rightarrow> (s1, calls1)
               | Some builder \<Rightarrow> (builder t sut state s1, calls1 @ [SpecificBuilderCall j])) = (s3, calls3)"
      by simp
    from False Cons.prems(3) a' c1 have l': "(case SpecificBuilder tc of
                 None \<Rightarrow> (s1', calls1)
               | Some builder \<Rightarrow> (builder t sut' state' s1', calls1 @ [SpecificBuilderCall j])) = (s3', calls3')"
      by simp
    from l l' 1 sp
    have "same_cells sut state s3 sut' state' s3' \<and> calls3 = calls3' \<and> only_cells sut state s1 s3"
      by (auto split: option.splits
          simp: only_cells_refl touches_only_arguments_same touches_only_arguments_frame)
    with f1 show ?thesis by (auto intro: only_cells_trans)
  qed
qed

text \<open>One run of \<open>build\<close> on well-behaved setup functions, and two runs side by side.\<close>

lemma build_run_local:
  assumes wb: "well_behaved P"
    and r: "build_run zs zt P i t s = ((sut, state), s1, calls)"
  shows "sut = next_addr s \<and> state = Suc (next_addr s) \<and> next_addr s1 = Suc (Suc (next_addr s))
       \<and> (\<forall>a. a \<noteq> sut \<longrightarrow> sut_cells s1 a = sut_cells s a)
       \<and> (\<forall>a. a \<noteq> state \<longrightarrow> state_cells s1 a = state_cells s a)"
proof -
  let ?s2 = "s\<lparr>sut_cells := (sut_cells s)(next_addr s := zs), next_addr := Suc (next_addr s)\<rparr>
              \<lparr>state_cells := (state_cells s)(Suc (next_addr s) := zt),
               next_addr := Suc (Suc (next_addr s))\<rparr>"
  from r have p: "sut = next_addr s" "state = Suc (next_addr s)"
    and l: "build_loop t (next_addr s) (Suc (next_addr s)) i 0 P (?s2, []) = (s1, calls)"
    by (auto simp: build_run_def new_sut_def new_state_def split: prod.splits)
  have "same_cells (next_addr s) (Suc (next_addr s)) ?s2 (next_addr s) (Suc (next_addr s)) ?s2"
    by (simp add: same_cells_def)
  from build_loop_local [OF wb l l this]
  have "only_cells (next_addr s) (Suc (next_addr s)) ?s2 s1" by simp
  with p show ?thesis by (simp add: only_cells_def)
qed

lemma build_run_same:
  assumes wb: "well_behaved P"
    and r: "build_run zs zt P i t s = ((sut, state), s1, calls)"
    and r': "build_run zs zt P i t s' = ((sut', state'), s1', calls')"
  shows "sut_cells s1 sut = sut_cells s1' sut' \<and> state_cells s1 state = state_cells s1' state'
       \<and> calls = calls'"
proof -
  let ?s2 = "s\<lparr>sut_cells := (sut_cells s)(next_addr s := zs), next_addr := Suc (next_addr s)\<rparr>
              \<lparr>state_cells := (state_cells s)(Suc (next_addr s) := zt),
               next_addr := Suc (Suc (next_addr s))\<rparr>"
  let ?s2' = "s'\<lparr>sut_cells := (sut_cells s')(next_addr s' := zs), next_addr := Suc (next_addr s')\<rparr>
              \<lparr>state_cells := (state_cells s')(Suc (next_addr s') := zt),
               next_addr := Suc (Suc (next_addr s'))\<rparr>"
  from r have p: "sut = next_addr s" "state = Suc (next_addr s)"
    and l: "build_loop t (next_addr s) (Suc (next_addr s)) i 0 P (?s2, []) = (s1, calls)"
    by (auto simp: build_run_def new_sut_def new_state_def split: prod.splits)
  from r' have p': "sut' = next_addr s'" "state' = Suc (next_addr s')"
    and l': "build_loop t (next_addr s') (Suc (next_addr s')) i 0 P (?s2', []) = (s1', calls')"
    by (auto simp: build_run_def new_sut_def new_state_def split: prod.splits)
  have "same_cells (next_addr s) (Suc (next_addr s)) ?s2 (next_addr s') (Suc (next_addr s')) ?s2'"
    by (simp add: same_cells_def)
  from build_loop_local [OF wb l l' this] p p' show ?thesis
    by (simp add: same_cells_def)
qed

lemma build_same:
  assumes wb: "well_behaved P"
  shows "fst (build zs zt P i c t s) = fst (build zs zt P i c t s')"
proof -
  obtain sut state s1 calls where r: "build_run zs zt P i t s = ((sut, state), s1, calls)"
    by (cases "build_run zs zt P i t s") auto
  obtain sut' state' s1' calls' where r': "build_run zs zt P i t s' = ((sut', state'), s1', calls')"
    by (cases "build_run zs zt P i t s'") auto
  from build_run_same [OF wb r r'] show ?thesis
    by (simp add: build_def r r')
qed

lemma build_loop_no_builder:
  "\<forall>tc\<in>set cases. StateBuilder tc = None \<and> SpecificBuilder tc = None \<Longrightarrow>
   build_loop t sut state i j cases (s, calls) = (s, calls)"
  by (induction cases arbitrary: j) simp_all

lemma build_no_builder:
  "\<forall>tc\<in>set P. StateBuilder tc = None \<and> SpecificBuilder tc = None \<Longrightarrow>
   fst (build zs zt P i c t s) = \<lparr>SUT = zs, State = zt, Assert = Assertion c\<rparr>"
  by (simp add: build_def build_run_def new_sut_def new_state_def build_loop_no_builder)

lemma append_sut_local: "touches_only_arguments (append_sut x)"
  unfolding touches_only_arguments_def
  by (rule exI [of _ "\<lambda>t a b. (a @ x, b)"]) (simp add: append_sut_def)

lemma path_abcd_well_behaved: "well_behaved path_abcd"
  by (simp add: well_behaved_def path_abcd_def stage_def append_sut_local)

section \<open>The claims\<close>

subsection \<open>C1: what a builder does\<close>

text \<open>
  C1: for every path \<open>P\<close> and every position \<open>i\<close> of it, one call of the builder of
  \<open>(P, i)\<close>, from any store, allocates a fresh cell for the system under test and a
  fresh cell for the state, both holding the zero value; runs the cumulative setup of
  the positions 0 to \<open>i\<close> in increasing order on these two cells, skipping the
  positions that have none; then runs the one-shot setup of position \<open>i\<close> once when
  there is one; and returns the contents of the two cells with the assertion of
  \<open>P[i]\<close>.  The calls it makes are the same for every store it is started from, so
  nothing is kept from one call to the next.  These builders are the ones the iterator
  emits: for each test set of \<open>GenerateTestSets\<close>, one per position.  Four stages with
  one alternative each, whose cumulative setups append a, b, c and d to a string, give
  the values a, ab, abc and abcd at the positions 0 to 3.
\<close>

theorem build_contract:
  assumes "i < length P"
  shows "build_run zero_sut zero_state P i t s = spec_build zero_sut zero_state P i t s
   \<and> build zero_sut zero_state P i (P ! i) t s =
       (let ((sut, state), s', calls) = spec_build zero_sut zero_state P i t s
        in (\<lparr>SUT = sut_cells s' sut, State = state_cells s' state, Assert = Assertion (P ! i)\<rparr>, s'))
   \<and> fst (build_run zero_sut zero_state P i t s) = (next_addr s, Suc (next_addr s))
   \<and> snd (snd (build_run zero_sut zero_state P i t s)) =
       map StateBuilderCall (filter (\<lambda>j. StateBuilder (P ! j) \<noteq> None) [0..<Suc i])
       @ (if SpecificBuilder (P ! i) = None then [] else [SpecificBuilderCall i])
   \<and> emitted zero_sut zero_state ts =
       (case GenerateTestSets ts of
          Inl e \<Rightarrow> Inl e
        | Inr testSets \<Rightarrow>
            Inr (concat (map (\<lambda>tset.
                   map (\<lambda>(i, curcase).
                          (testName tset curcase,
                           build zero_sut zero_state (TestCases tset) i curcase))
                     (enumerate 0 (TestCases tset))) testSets)))
   \<and> map_sum id (map (\<lambda>(name, b). SUT (fst (b u s')))) (emitted [] 0 registry_abcd) =
       Inr [''a'', ''ab'', ''abc'', ''abcd'']"
proof -
  note r = build_run_spec [OF assms, of zero_sut zero_state t s]
  have e: "emitted zero_sut zero_state ts =
       (case GenerateTestSets ts of
          Inl e \<Rightarrow> Inl e
        | Inr testSets \<Rightarrow>
            Inr (concat (map (\<lambda>tset.
                   map (\<lambda>(i, curcase).
                          (testName tset curcase,
                           build zero_sut zero_state (TestCases tset) i curcase))
                     (enumerate 0 (TestCases tset))) testSets)))"
    unfolding emitted_eq
    by (cases "GenerateTestSets ts") (simp_all add: pairs_of_def [abs_def])
  show ?thesis
    unfolding r spec_build_cells spec_build_calls
    using build_spec [OF assms] e abcd_suts by blast
qed

theorem build_contract_witness:
  "1 < length path_abcd
   \<and> SUT (fst (build [] 0 path_abcd 1 (path_abcd ! 1) ()
        \<lparr>sut_cells = (\<lambda>_. ''old''), state_cells = (\<lambda>_. 7), next_addr = 5\<rparr>)) = ''ab''
   \<and> State (fst (build [] 0 path_abcd 1 (path_abcd ! 1) ()
        \<lparr>sut_cells = (\<lambda>_. ''old''), state_cells = (\<lambda>_. 7), next_addr = 5\<rparr>)) = 0
   \<and> snd (snd (build_run [] 0 path_abcd 1 ()
        \<lparr>sut_cells = (\<lambda>_. ''old''), state_cells = (\<lambda>_. 7), next_addr = 5\<rparr>))
      = [StateBuilderCall 0, StateBuilderCall 1]"
proof -
  let ?s = "\<lparr>sut_cells = (\<lambda>_. ''old''), state_cells = (\<lambda>_. 7 :: int), next_addr = 5\<rparr>"
  have h: "1 < length path_abcd" by (simp add: path_abcd_def)
  note c = build_contract [OF h, where zero_sut = "[]" and zero_state = 0 and t = "()"
      and s = ?s and ts = registry_abcd and u = "()" and s' = ?s]
  from c have r: "build_run [] 0 path_abcd 1 () ?s = spec_build [] 0 path_abcd 1 () ?s"
    by (rule conjunct1)
  from c have b: "build [] 0 path_abcd 1 (path_abcd ! 1) () ?s =
       (let ((sut, state), s', calls) = spec_build [] 0 path_abcd 1 () ?s
        in (\<lparr>SUT = sut_cells s' sut, State = state_cells s' state,
             Assert = Assertion (path_abcd ! 1)\<rparr>, s'))"
    by blast
  have sp: "spec_build [] 0 path_abcd 1 () ?s =
      ((5, 6), \<lparr>sut_cells = (\<lambda>_. ''old'')(5 := ''ab''), state_cells = (\<lambda>_. 7)(6 := 0),
                next_addr = 7\<rparr>, [StateBuilderCall 0, StateBuilderCall 1])"
    by (simp add: spec_build_def new_sut_def new_state_def cumulative_setup_def one_shot_setup_def
        path_abcd_def stage_def append_sut_def)
  show ?thesis
    unfolding b r sp using h by simp
qed

subsection \<open>C2: what a builder leaves alone\<close>

text \<open>
  C2: one call of the builder of \<open>(P, i)\<close> calls no cumulative setup of a position
  beyond \<open>i\<close> and no one-shot setup but that of position \<open>i\<close>; accordingly two paths
  that agree on the cumulative setups up to \<open>i\<close> and on the one-shot setup of \<open>i\<close>
  give the same run, whatever the other setup functions are.  In the four-stage
  scenario, with a one-shot setup on the third stage (the stage named 3 of the test,
  position 2) that overwrites the value by the sentinel \<open>-\<close>, the builder of position 2
  returns \<open>-\<close> and the result at position 3 is abcd, which does not contain the
  sentinel.
\<close>

theorem build_frame:
  "(\<forall>c\<in>set (snd (snd (build_run zero_sut zero_state P i t s))).
      (\<exists>j\<le>i. c = StateBuilderCall j) \<or> c = SpecificBuilderCall i)
   \<and> (i < length P \<and> i < length P'
        \<and> (\<forall>j\<le>i. StateBuilder (P ! j) = StateBuilder (P' ! j))
        \<and> SpecificBuilder (P ! i) = SpecificBuilder (P' ! i)
      \<longrightarrow> build_run zero_sut zero_state P i t s = build_run zero_sut zero_state P' i t s)
   \<and> map_sum id (map (\<lambda>(name, b). SUT (fst (b u s')))) (emitted [] 0 registry_sentinel) =
       Inr [''a'', ''ab'', ''-'', ''abcd'']
   \<and> CHR ''-'' \<notin> set ''abcd''"
proof -
  obtain sut s1 where a: "new_sut zero_sut s = (sut, s1)" by (cases "new_sut zero_sut s")
  obtain state s2 where b: "new_state zero_state s1 = (state, s2)"
    by (cases "new_state zero_state s1")
  obtain s3 calls where l: "build_loop t sut state i 0 P (s2, []) = (s3, calls)"
    by (cases "build_loop t sut state i 0 P (s2, [])")
  have "snd (snd (build_run zero_sut zero_state P i t s)) = calls"
    by (simp add: build_run_def a b l)
  moreover from build_loop_calls [OF _ l]
  have "set calls \<subseteq> StateBuilderCall ` {0..i} \<union> {SpecificBuilderCall i}" by simp
  ultimately have 1: "\<forall>c\<in>set (snd (snd (build_run zero_sut zero_state P i t s))).
      (\<exists>j\<le>i. c = StateBuilderCall j) \<or> c = SpecificBuilderCall i"
    by auto
  have 2: "i < length P \<and> i < length P'
        \<and> (\<forall>j\<le>i. StateBuilder (P ! j) = StateBuilder (P' ! j))
        \<and> SpecificBuilder (P ! i) = SpecificBuilder (P' ! i)
      \<longrightarrow> build_run zero_sut zero_state P i t s = build_run zero_sut zero_state P' i t s"
    by (auto simp: build_run_spec intro: spec_build_agree)
  have 3: "CHR ''-'' \<notin> set ''abcd''" by simp
  from 1 2 3 sentinel_suts show ?thesis by blast
qed

theorem build_frame_witness:
  "SpecificBuilderCall 2 \<notin> set (snd (snd (build_run [] 0 path_sentinel 3 ()
      \<lparr>sut_cells = (\<lambda>_. ''old''), state_cells = (\<lambda>_. 7), next_addr = 5\<rparr>)))
   \<and> StateBuilderCall 3 \<notin> set (snd (snd (build_run [] 0 path_sentinel 2 ()
      \<lparr>sut_cells = (\<lambda>_. ''old''), state_cells = (\<lambda>_. 7), next_addr = 5\<rparr>)))
   \<and> build_run [] 0 path_sentinel 3 ()
        \<lparr>sut_cells = (\<lambda>_. ''old''), state_cells = (\<lambda>_. 7), next_addr = 5\<rparr>
      = build_run [] 0 path_abcd 3 ()
        \<lparr>sut_cells = (\<lambda>_. ''old''), state_cells = (\<lambda>_. 7), next_addr = 5\<rparr>"
proof -
  let ?s = "\<lparr>sut_cells = (\<lambda>_. ''old''), state_cells = (\<lambda>_. 7 :: int), next_addr = 5\<rparr>"
  from build_frame [of "[]" 0 path_sentinel 3 "()" ?s]
  have 1: "SpecificBuilderCall 2 \<notin> set (snd (snd (build_run [] 0 path_sentinel 3 () ?s)))"
    by fastforce
  from build_frame [of "[]" 0 path_sentinel 2 "()" ?s]
  have 2: "StateBuilderCall 3 \<notin> set (snd (snd (build_run [] 0 path_sentinel 2 () ?s)))"
    by fastforce
  have "StateBuilder (path_sentinel ! j) = StateBuilder (path_abcd ! j)" if "j \<le> 3" for j
  proof -
    from that have "j = 0 \<or> j = 1 \<or> j = 2 \<or> j = 3" by arith
    then show ?thesis
      by (auto simp: path_sentinel_def path_abcd_def stage_def)
  qed
  then have "\<forall>j\<le>3. StateBuilder (path_sentinel ! j) = StateBuilder (path_abcd ! j)"
    by blast
  moreover have "SpecificBuilder (path_sentinel ! 3) = SpecificBuilder (path_abcd ! 3)"
    by (simp add: path_sentinel_def path_abcd_def stage_def)
  moreover have "3 < length path_sentinel" "3 < length path_abcd"
    by (simp_all add: path_sentinel_def path_abcd_def)
  ultimately have 3: "build_run [] 0 path_sentinel 3 () ?s = build_run [] 0 path_abcd 3 () ?s"
    using build_frame [of "[]" 0 path_sentinel 3 "()" ?s path_abcd] by blast
  from 1 2 3 show ?thesis by blast
qed

subsection \<open>C3: two calls of the same builder\<close>

text \<open>
  C3: let the setup functions of the path be deterministic and touch only their
  arguments, and let the registry be left alone between the calls.  Then two calls of
  the builder of \<open>(P, i)\<close> return equal results, whatever store each of them starts
  from, so neither depends on the other having run before or not.  A call takes its two
  cells at the next free addresses and changes no other cell; a second call that
  follows a first takes two other cells and leaves those of the first as they are.
  Overwriting the cells of the first call does not change what the second returns.
  When the path has no setup function at all, the result holds the zero values.
\<close>

theorem build_isolation:
  assumes "well_behaved P"
    and "build_run zero_sut zero_state P i t s = ((sut1, state1), s1, calls1)"
    and "build_run zero_sut zero_state P i t s1 = ((sut2, state2), s2, calls2)"
  shows "fst (build zero_sut zero_state P i c t s1) = fst (build zero_sut zero_state P i c t s)
   \<and> (\<forall>s'. fst (build zero_sut zero_state P i c t s') = fst (build zero_sut zero_state P i c t s))
   \<and> calls2 = calls1
   \<and> sut1 = next_addr s \<and> state1 = Suc (next_addr s)
   \<and> sut2 = next_addr s1 \<and> state2 = Suc (next_addr s1)
   \<and> sut2 \<noteq> sut1 \<and> state2 \<noteq> state1
   \<and> (\<forall>a. a \<noteq> sut1 \<longrightarrow> sut_cells s1 a = sut_cells s a)
   \<and> (\<forall>a. a \<noteq> state1 \<longrightarrow> state_cells s1 a = state_cells s a)
   \<and> (\<forall>a. a \<noteq> sut2 \<longrightarrow> sut_cells s2 a = sut_cells s1 a)
   \<and> (\<forall>a. a \<noteq> state2 \<longrightarrow> state_cells s2 a = state_cells s1 a)
   \<and> sut_cells s2 sut1 = sut_cells s1 sut1 \<and> state_cells s2 state1 = state_cells s1 state1
   \<and> (\<forall>x y. fst (build zero_sut zero_state P i c t
                   (s1\<lparr>sut_cells := (sut_cells s1)(sut1 := x),
                      state_cells := (state_cells s1)(state1 := y)\<rparr>))
            = fst (build zero_sut zero_state P i c t s))
   \<and> ((\<forall>tc\<in>set P. StateBuilder tc = None \<and> SpecificBuilder tc = None) \<longrightarrow>
        fst (build zero_sut zero_state P i c t s)
          = \<lparr>SUT = zero_sut, State = zero_state, Assert = Assertion c\<rparr>)"
proof -
  note wb = assms(1)
  note one = build_run_local [OF wb assms(2)]
  note two = build_run_local [OF wb assms(3)]
  from build_run_same [OF wb assms(3) assms(2)] have calls: "calls2 = calls1" by simp
  from one two have ne: "sut2 \<noteq> sut1" "state2 \<noteq> state1" by simp_all
  with two have keep: "sut_cells s2 sut1 = sut_cells s1 sut1" "state_cells s2 state1 = state_cells s1 state1"
    by simp_all
  have any: "fst (build zero_sut zero_state P i c t s') = fst (build zero_sut zero_state P i c t s)"
    for s'
    by (rule build_same [OF wb])
  show ?thesis
    using any calls one two ne keep build_no_builder [of P zero_sut zero_state i c t s]
    by (intro conjI allI impI) simp_all
qed

theorem build_isolation_witness:
  "well_behaved path_abcd
   \<and> fst (build [] 0 path_abcd 1 (path_abcd ! 1) ()
        \<lparr>sut_cells = (\<lambda>_. ''old'')(5 := ''ab''), state_cells = (\<lambda>_. 7)(6 := 0), next_addr = 7\<rparr>)
     = fst (build [] 0 path_abcd 1 (path_abcd ! 1) ()
        \<lparr>sut_cells = (\<lambda>_. ''old''), state_cells = (\<lambda>_. 7), next_addr = 5\<rparr>)
   \<and> fst (build [] 0 path_abcd 1 (path_abcd ! 1) ()
        \<lparr>sut_cells = (\<lambda>_. ''old'')(5 := ''overwritten''), state_cells = (\<lambda>_. 7)(6 := 99), next_addr = 7\<rparr>)
     = fst (build [] 0 path_abcd 1 (path_abcd ! 1) ()
        \<lparr>sut_cells = (\<lambda>_. ''old''), state_cells = (\<lambda>_. 7), next_addr = 5\<rparr>)"
proof -
  let ?s = "\<lparr>sut_cells = (\<lambda>_. ''old''), state_cells = (\<lambda>_. 7 :: int), next_addr = 5\<rparr>"
  let ?s1 = "\<lparr>sut_cells = (\<lambda>_. ''old'')(5 := ''ab''), state_cells = (\<lambda>_. 7 :: int)(6 := 0), next_addr = 7\<rparr>"
  let ?s2 = "\<lparr>sut_cells = (\<lambda>_. ''old'')(5 := ''ab'', 7 := ''ab''),
              state_cells = (\<lambda>_. 7 :: int)(6 := 0, 8 := 0), next_addr = 9\<rparr>"
  have r1: "build_run [] 0 path_abcd 1 () ?s = ((5, 6), ?s1, [StateBuilderCall 0, StateBuilderCall 1])"
    by (simp add: build_run_def new_sut_def new_state_def path_abcd_def stage_def append_sut_def)
  have r2: "build_run [] 0 path_abcd 1 () ?s1 = ((7, 8), ?s2, [StateBuilderCall 0, StateBuilderCall 1])"
    by (simp add: build_run_def new_sut_def new_state_def path_abcd_def stage_def append_sut_def)
  note iso = build_isolation [OF path_abcd_well_behaved r1 r2, of "path_abcd ! 1"]
  from iso have a: "fst (build [] 0 path_abcd 1 (path_abcd ! 1) () ?s1)
                  = fst (build [] 0 path_abcd 1 (path_abcd ! 1) () ?s)"
    by (rule conjunct1)
  from iso have "\<forall>x y. fst (build [] 0 path_abcd 1 (path_abcd ! 1) ()
                   (?s1\<lparr>sut_cells := (sut_cells ?s1)(5 := x),
                      state_cells := (state_cells ?s1)(6 := y)\<rparr>))
            = fst (build [] 0 path_abcd 1 (path_abcd ! 1) () ?s)"
    by blast
  then have "fst (build [] 0 path_abcd 1 (path_abcd ! 1) ()
                   (?s1\<lparr>sut_cells := (sut_cells ?s1)(5 := ''overwritten''),
                      state_cells := (state_cells ?s1)(6 := 99)\<rparr>))
            = fst (build [] 0 path_abcd 1 (path_abcd ! 1) () ?s)"
    by blast
  then have b: "fst (build [] 0 path_abcd 1 (path_abcd ! 1) ()
        \<lparr>sut_cells = (\<lambda>_. ''old'')(5 := ''overwritten''), state_cells = (\<lambda>_. 7)(6 := 99), next_addr = 7\<rparr>)
     = fst (build [] 0 path_abcd 1 (path_abcd ! 1) () ?s)"
    by simp
  from path_abcd_well_behaved a b show ?thesis by (intro conjI)
qed

subsection \<open>C4: the enumeration of the counter\<close>

text \<open>
  C4 says that the counter, driven by \<open>AddOne\<close> until it reports done, starts and
  ends at the all-zero tuple.  It does not end there: the call of \<open>AddOne\<close> that
  reports done finds no index to increase and resets nothing, so the counter stays at
  the last tuple.  With the single radix 2 the tuples are 0 and 1, and the counter is
  left at 1.
\<close>

theorem counter_not_wrapped:
  "run_counter (NewCurrIndexes [2]) =
     Inr ([\<lparr>currIndexes = [0], alternativeCountList = [2]\<rparr>,
           \<lparr>currIndexes = [1], alternativeCountList = [2]\<rparr>],
          \<lparr>currIndexes = [1], alternativeCountList = [2]\<rparr>)
   \<and> currIndexes \<lparr>currIndexes = [1], alternativeCountList = [2]\<rparr> \<noteq> replicate (length [2::int]) 0"
  by (simp add: run_counter.simps AddOne_advance NewCurrIndexes_eq)

text \<open>
  C4, amended: for every radix list with all entries at least 1, the run returns; it
  records as many tuples as the product of the radices, all distinct, and they are
  exactly the tuples with every index below its radix.  The first tuple is all-zero; the
  last tuple, at which the counter is also left when \<open>AddOne\<close> reports done, has
  every index at its radix minus one.  Each tuple follows from the one before by
  increasing the lowest-position index that is below its radix minus one and resetting
  every index at a lower position to zero.  The radices 1, 3, 1, 2 give the labels 0000,
  0100, 0200, 0001, 0101, 0201 in this order, \<open>String\<close> writing the decimal digits
  of the indexes one after the other.
\<close>

theorem counter_enumeration:
  assumes rs: "\<forall>r\<in>set radix. 1 \<le> r"
  shows "\<exists>out final.
     run_counter (NewCurrIndexes radix) = Inr (out, final)
   \<and> length out = nat (prod_list radix)
   \<and> distinct (map currIndexes out)
   \<and> set (map currIndexes out) = {cs. in_range cs radix}
   \<and> currIndexes (hd out) = replicate (length radix) 0
   \<and> currIndexes (last out) = map (\<lambda>r. r - 1) radix
   \<and> currIndexes final = map (\<lambda>r. r - 1) radix
   \<and> (\<forall>k. Suc k < length out \<longrightarrow>
         (\<exists>j<length radix.
            (\<forall>i<j. currIndexes (out ! k) ! i = radix ! i - 1)
          \<and> currIndexes (out ! k) ! j < radix ! j - 1
          \<and> currIndexes (out ! Suc k) =
              replicate j 0 @ [currIndexes (out ! k) ! j + 1] @ drop (Suc j) (currIndexes (out ! k))))
   \<and> map_sum id (\<lambda>(out, final). map String out) (run_counter (NewCurrIndexes [1, 3, 1, 2])) =
       Inr [''0000'', ''0100'', ''0200'', ''0001'', ''0101'', ''0201'']"
proof -
  let ?P = "nat (prod_list radix)"
  let ?f = "\<lambda>n. \<lparr>currIndexes = unrank radix (int n), alternativeCountList = radix\<rparr>"
  let ?out = "map ?f [0..<?P]"
  let ?final = "\<lparr>currIndexes = map (\<lambda>r. r - 1) radix, alternativeCountList = radix\<rparr>"
  have run: "run_counter (NewCurrIndexes radix) = Inr (?out, ?final)"
    by (rule run_counter_New [OF rs])
  have pos: "0 < ?P" using prod_list_pos [OF rs] by simp
  have cur: "map currIndexes ?out = map (\<lambda>n. unrank radix (int n)) [0..<?P]"
    by simp
  have len: "length ?out = ?P" by simp
  have dist: "distinct (map currIndexes ?out)"
    unfolding cur by (rule unrank_tuples(1) [OF rs])
  have all: "set (map currIndexes ?out) = {cs. in_range cs radix}"
    unfolding cur by (rule unrank_tuples(2) [OF rs])
  have first: "currIndexes (hd ?out) = replicate (length radix) 0"
    using pos unrank_zero [OF rs] by (simp add: hd_map upt_conv_Cons)
  have "int (?P - 1) = prod_list radix - 1" using pos by simp
  then have lst: "currIndexes (last ?out) = map (\<lambda>r. r - 1) radix"
    using pos unrank_last [OF rs] by (simp add: last_map last_upt)
  have step: "\<forall>k. Suc k < length ?out \<longrightarrow>
         (\<exists>j<length radix.
            (\<forall>i<j. currIndexes (?out ! k) ! i = radix ! i - 1)
          \<and> currIndexes (?out ! k) ! j < radix ! j - 1
          \<and> currIndexes (?out ! Suc k) =
              replicate j 0 @ [currIndexes (?out ! k) ! j + 1] @ drop (Suc j) (currIndexes (?out ! k)))"
  proof (intro allI impI)
    fix k assume "Suc k < length ?out"
    then have k: "Suc k < ?P" by simp
    then have kk: "int k + 1 < prod_list radix" by simp
    have a: "advance (unrank radix (int k)) radix = Inr (Some (unrank radix (int k + 1)))"
      by (rule unrank_step [OF rs _ kk]) simp
    have ir: "in_range (unrank radix (int k)) radix"
      using rank_unrank [OF rs, of "int k"] kk by simp
    have e1: "currIndexes (?out ! k) = unrank radix (int k)" using k by simp
    have e2: "currIndexes (?out ! Suc k) = unrank radix (int k + 1)"
      using k by (simp add: add.commute)
    show "\<exists>j<length radix.
            (\<forall>i<j. currIndexes (?out ! k) ! i = radix ! i - 1)
          \<and> currIndexes (?out ! k) ! j < radix ! j - 1
          \<and> currIndexes (?out ! Suc k) =
              replicate j 0 @ [currIndexes (?out ! k) ! j + 1] @ drop (Suc j) (currIndexes (?out ! k))"
      unfolding e1 e2 by (rule advance_lowest [OF ir a])
  qed
  have fin: "currIndexes ?final = map (\<lambda>r. r - 1) radix" by simp
  show ?thesis
    using run len dist all first lst fin step labels_1312 by blast
qed

theorem counter_enumeration_witness:
  "(1::int) \<le> 2 \<and> (1::int) \<le> 3 \<and>
   (\<exists>out final. run_counter (NewCurrIndexes [2, 3]) = Inr (out, final)
      \<and> length out = 6 \<and> distinct (map currIndexes out)
      \<and> currIndexes (hd out) = [0, 0] \<and> currIndexes (last out) = [1, 2]
      \<and> currIndexes final = [1, 2])"
proof -
  have h: "\<forall>r\<in>set [2, 3 :: int]. 1 \<le> r" by simp
  from counter_enumeration [OF h] show ?thesis by simp blast
qed

subsection \<open>C5: the number of paths\<close>

text \<open>
  C5: for every registry that satisfies its invariant (every set holds at least one
  alternative), \<open>GenerateTestSets\<close> returns, and the number of test sets it returns
  is the product of the numbers of alternatives of the sets.  A registry that breaks the
  invariant makes \<open>GenerateTestSets\<close> panic on its first index expression, so no
  other registry returns paths at all.  The registry with the alternative counts 2, 1, 2
  gives 4 test sets.
\<close>

theorem path_count:
  "(wellformed ts \<longrightarrow>
      (\<exists>testSets. GenerateTestSets ts = Inr testSets
         \<and> length testSets = prod_list (map (\<lambda>s. length (TestAlternatives s)) (TestCaseSets ts))))
   \<and> (\<not> wellformed ts \<longrightarrow> GenerateTestSets ts = Inl IndexOutOfRange)
   \<and> map (\<lambda>s. length (TestAlternatives s)) (TestCaseSets registry_212) = [2, 1, 2]
   \<and> map_sum id length (GenerateTestSets registry_212) = Inr 4"
proof -
  have a: "wellformed ts \<longrightarrow>
      (\<exists>testSets. GenerateTestSets ts = Inr testSets
         \<and> length testSets = prod_list (map (\<lambda>s. length (TestAlternatives s)) (TestCaseSets ts)))"
  proof
    assume w: "wellformed ts"
    have "nat (prod_list (counts (TestCaseSets ts))) =
          prod_list (map (\<lambda>s. length (TestAlternatives s)) (TestCaseSets ts))"
      by (simp only: counts_map nat_prod_list_int)
    then show "\<exists>testSets. GenerateTestSets ts = Inr testSets
         \<and> length testSets = prod_list (map (\<lambda>s. length (TestAlternatives s)) (TestCaseSets ts))"
      by (simp add: GenerateTestSets_eq [OF w])
  qed
  have w: "wellformed registry_212"
    by (simp add: wellformed_def registry_212_sets)
  have c: "map (\<lambda>s. length (TestAlternatives s)) (TestCaseSets registry_212) = [2, 1, 2]"
    by (simp add: registry_212_sets)
  have "nat (prod_list (counts (TestCaseSets registry_212))) = 4"
    by (simp add: counts_def registry_212_sets)
  then have d: "map_sum id length (GenerateTestSets registry_212) = Inr 4"
    by (simp add: GenerateTestSets_eq [OF w])
  from a GenerateTestSets_illformed c d show ?thesis by blast
qed

theorem path_count_witness:
  "wellformed registry_212
   \<and> (\<exists>testSets. GenerateTestSets registry_212 = Inr testSets \<and> length testSets = 4)
   \<and> GenerateTestSets \<lparr>TestCaseSets = [\<lparr>TestAlternatives = [] :: (unit, unit, unit, unit) TestCase list\<rparr>]\<rparr>
       = Inl IndexOutOfRange"
proof -
  have w: "wellformed registry_212"
    by (simp add: wellformed_def registry_212_sets)
  have i: "\<not> wellformed \<lparr>TestCaseSets = [\<lparr>TestAlternatives = [] :: (unit, unit, unit, unit) TestCase list\<rparr>]\<rparr>"
    by (simp add: wellformed_def)
  have p: "prod_list (map (\<lambda>s. length (TestAlternatives s)) (TestCaseSets registry_212)) = 4"
    by (simp add: registry_212_sets)
  from path_count [of registry_212] w
  have "\<exists>testSets. GenerateTestSets registry_212 = Inr testSets \<and> length testSets = 4"
    unfolding p by blast
  moreover from path_count [of "\<lparr>TestCaseSets = [\<lparr>TestAlternatives = [] :: (unit, unit, unit, unit) TestCase list\<rparr>]\<rparr>"] i
  have "GenerateTestSets \<lparr>TestCaseSets = [\<lparr>TestAlternatives = [] :: (unit, unit, unit, unit) TestCase list\<rparr>]\<rparr>
       = Inl IndexOutOfRange"
    by blast
  ultimately show ?thesis using w by blast
qed

subsection \<open>C6: no registered stage\<close>

text \<open>
  C6 says that with no registered stage \<open>GenerateTestSets\<close> produces no path.  It
  produces one: the loop body runs once before \<open>AddOne\<close> is asked, so the result
  holds the empty test set.
\<close>

theorem no_stage_one_path:
  "GenerateTestSets (\<lparr>TestCaseSets = []\<rparr> :: (unit, unit, unit, unit) TestsBuilder) =
     Inr [\<lparr>TestCases = [], TestSetName = []\<rparr>]
   \<and> length [\<lparr>TestCases = [] :: (unit, unit, unit, unit) TestCase list, TestSetName = []\<rparr>] \<noteq> 0"
  by (simp add: GenerateTestSets_eq wellformed_empty counts_def several_def make_set_def path_def)

text \<open>
  C6, amended: with no registered stage nothing panics; \<open>GenerateTestSets\<close> returns
  exactly one test set, which has no test case and no name, and the iterator yields no
  pair: the consumer that collects every pair ends with none, and any consumer gets its
  state back untouched.
\<close>

theorem no_stage:
  "GenerateTestSets (\<lparr>TestCaseSets = []\<rparr> :: ('t, 'sut, 'state, 'assert) TestsBuilder) =
     Inr [\<lparr>TestCases = [], TestSetName = []\<rparr>]
   \<and> emitted zero_sut zero_state (\<lparr>TestCaseSets = []\<rparr> :: ('t, 'sut, 'state, 'assert) TestsBuilder) = Inr []
   \<and> Tests zero_sut zero_state (\<lparr>TestCaseSets = []\<rparr> :: ('t, 'sut, 'state, 'assert) TestsBuilder) yield c = Inr c"
proof -
  have g: "GenerateTestSets (\<lparr>TestCaseSets = []\<rparr> :: ('t, 'sut, 'state, 'assert) TestsBuilder) =
     Inr [\<lparr>TestCases = [], TestSetName = []\<rparr>]"
    by (simp add: GenerateTestSets_eq wellformed_empty counts_def several_def make_set_def path_def)
  then show ?thesis
    by (simp add: emitted_eq pairs_of_def Tests_def enumerate_eq_zip)
qed

subsection \<open>C7: when a test name carries the combination label\<close>

text \<open>
  C7: for every registry in which every set has exactly one alternative there is exactly
  one path, it has no name, and every emitted test name is the registered \<open>TestName\<close>
  as it is.  For every registry (satisfying its invariant) in which some set has more
  than one alternative, every emitted test name is \<open>Test Alternative #\<close>, the label
  \<open>String\<close> gives for the counter's tuple of the path, an underscore and the
  registered \<open>TestName\<close>.  A registry that breaks the invariant emits no name: the
  iterator panics.
\<close>

theorem test_names:
  "((\<forall>s\<in>set (TestCaseSets ts). length (TestAlternatives s) = 1) \<longrightarrow>
       GenerateTestSets ts =
         Inr [\<lparr>TestCases = map (\<lambda>s. hd (TestAlternatives s)) (TestCaseSets ts), TestSetName = []\<rparr>]
     \<and> map_sum id (map fst) (emitted zero_sut zero_state ts) =
         Inr (map (\<lambda>s. TestName (hd (TestAlternatives s))) (TestCaseSets ts)))
   \<and> (wellformed ts \<and> (\<exists>s\<in>set (TestCaseSets ts). 1 < length (TestAlternatives s)) \<longrightarrow>
       (\<exists>out final.
          run_counter (NewCurrIndexes (counts (TestCaseSets ts))) = Inr (out, final)
        \<and> map_sum id (map fst) (emitted zero_sut zero_state ts) =
            Inr (concat (map (\<lambda>idx.
                   map (\<lambda>tc. ''Test Alternative #'' @ String idx @ ''_'' @ TestName tc)
                     (path (TestCaseSets ts) (currIndexes idx))) out))))
   \<and> (\<not> wellformed ts \<longrightarrow> emitted zero_sut zero_state ts = Inl IndexOutOfRange)"
proof (intro conjI impI)
  assume one: "\<forall>s\<in>set (TestCaseSets ts). length (TestAlternatives s) = 1"
  let ?P = "map (\<lambda>s. hd (TestAlternatives s)) (TestCaseSets ts)"
  have "ts = \<lparr>TestCaseSets = TestCaseSets ts\<rparr>" by simp
  with single_counts [OF one]
  have "ts = \<lparr>TestCaseSets = map (\<lambda>tc. \<lparr>TestAlternatives = [tc]\<rparr>) ?P\<rparr>" by simp
  with single_alternatives [of ?P]
  show g: "GenerateTestSets ts = Inr [\<lparr>TestCases = ?P, TestSetName = []\<rparr>]" by simp
  show "map_sum id (map fst) (emitted zero_sut zero_state ts) =
         Inr (map (\<lambda>s. TestName (hd (TestAlternatives s))) (TestCaseSets ts))"
    by (simp add: emitted_eq g pairs_of_names testName_plain comp_def)
next
  assume "wellformed ts \<and> (\<exists>s\<in>set (TestCaseSets ts). 1 < length (TestAlternatives s))"
  then have w: "wellformed ts" and sev: "several (TestCaseSets ts)"
    by (simp_all add: several_def list_ex_iff)
  let ?sets = "TestCaseSets ts"
  from emitted_names [OF w, of zero_sut zero_state] obtain out final where
    r: "run_counter (NewCurrIndexes (counts ?sets)) = Inr (out, final)"
    and ir: "\<forall>idx\<in>set out. in_range (currIndexes idx) (counts ?sets)"
    and e: "map_sum id (map fst) (emitted zero_sut zero_state ts) =
       Inr (concat (map (\<lambda>idx.
              map (testName (make_set ?sets (several ?sets) idx)) (path ?sets (currIndexes idx))) out))"
    by blast
  have "map (testName (make_set ?sets (several ?sets) idx)) (path ?sets (currIndexes idx)) =
        map (\<lambda>tc. ''Test Alternative #'' @ String idx @ ''_'' @ TestName tc)
          (path ?sets (currIndexes idx))" if "idx \<in> set out" for idx
  proof -
    from that ir have "length (currIndexes idx) = length (counts ?sets)"
      by (simp add: in_range_length)
    with several_nonempty [OF sev] have "currIndexes idx \<noteq> []"
      by (auto simp: counts_def)
    with sev show ?thesis by (simp add: testName_labelled)
  qed
  then have m: "map (\<lambda>idx. map (testName (make_set ?sets (several ?sets) idx))
                         (path ?sets (currIndexes idx))) out =
        map (\<lambda>idx. map (\<lambda>tc. ''Test Alternative #'' @ String idx @ ''_'' @ TestName tc)
                         (path ?sets (currIndexes idx))) out"
    by (rule map_cong [OF refl])
  show "\<exists>out final.
          run_counter (NewCurrIndexes (counts (TestCaseSets ts))) = Inr (out, final)
        \<and> map_sum id (map fst) (emitted zero_sut zero_state ts) =
            Inr (concat (map (\<lambda>idx.
                   map (\<lambda>tc. ''Test Alternative #'' @ String idx @ ''_'' @ TestName tc)
                     (path (TestCaseSets ts) (currIndexes idx))) out))"
    using r e unfolding m by blast
next
  assume "\<not> wellformed ts"
  then show "emitted zero_sut zero_state ts = Inl IndexOutOfRange"
    by (simp add: emitted_eq GenerateTestSets_illformed)
qed

theorem test_names_witness:
  "map_sum id (map fst) (emitted () () registry_plain) = Inr [''login'', ''fetch'']
   \<and> wellformed registry_two_one
   \<and> map_sum id (map fst) (emitted () () registry_two_one) =
       Inr [''Test Alternative #00_login'', ''Test Alternative #00_fetch'',
            ''Test Alternative #10_token'', ''Test Alternative #10_fetch'']"
proof -
  have one: "\<forall>s\<in>set (TestCaseSets registry_plain). length (TestAlternatives s) = 1"
    by (simp add: registry_plain_eq)
  with test_names [of registry_plain "()" "()"]
  have "map_sum id (map fst) (emitted () () registry_plain) =
         Inr (map (\<lambda>s. TestName (hd (TestAlternatives s))) (TestCaseSets registry_plain))"
    by blast
  then have 1: "map_sum id (map fst) (emitted () () registry_plain) = Inr [''login'', ''fetch'']"
    by (simp add: registry_plain_eq new_TestCase_def)
  have w: "wellformed registry_two_one"
    by (simp add: wellformed_def registry_two_one_eq)
  have sev: "\<exists>s\<in>set (TestCaseSets registry_two_one). 1 < length (TestAlternatives s)"
    by (simp add: registry_two_one_eq)
  have c: "run_counter (NewCurrIndexes (counts (TestCaseSets registry_two_one))) =
      Inr ([\<lparr>currIndexes = [0, 0], alternativeCountList = [2, 1]\<rparr>,
            \<lparr>currIndexes = [1, 0], alternativeCountList = [2, 1]\<rparr>],
           \<lparr>currIndexes = [1, 0], alternativeCountList = [2, 1]\<rparr>)"
    by (simp add: registry_two_one_eq counts_def run_counter.simps AddOne_advance NewCurrIndexes_eq)
  have l: "String \<lparr>currIndexes = [0, 0], alternativeCountList = [2, 1]\<rparr> = ''00''"
    "String \<lparr>currIndexes = [1, 0], alternativeCountList = [2, 1]\<rparr> = ''10''"
    by (simp_all add: String_def Itoa_def digits.simps digit_char_def)
  from test_names [of registry_two_one "()" "()"] w sev obtain out final where
    r: "run_counter (NewCurrIndexes (counts (TestCaseSets registry_two_one))) = Inr (out, final)"
    and e: "map_sum id (map fst) (emitted () () registry_two_one) =
            Inr (concat (map (\<lambda>idx.
                   map (\<lambda>tc. ''Test Alternative #'' @ String idx @ ''_'' @ TestName tc)
                     (path (TestCaseSets registry_two_one) (currIndexes idx))) out))"
    by blast
  from trans [OF r [symmetric] c] have out: "out = [\<lparr>currIndexes = [0, 0], alternativeCountList = [2, 1]\<rparr>,
            \<lparr>currIndexes = [1, 0], alternativeCountList = [2, 1]\<rparr>]"
    by simp
  have 2: "map_sum id (map fst) (emitted () () registry_two_one) =
       Inr [''Test Alternative #00_login'', ''Test Alternative #00_fetch'',
            ''Test Alternative #10_token'', ''Test Alternative #10_fetch'']"
    unfolding e out
    by (simp add: registry_two_one_eq path_def l new_TestCase_def)
  from 1 w 2 show ?thesis by blast
qed

subsection \<open>C8: uniqueness of the emitted names\<close>

text \<open>
  C8 says that for every registry the generated names are unique within a path.
  Nothing in the registration makes them so: \<open>Register\<close> stores the name it is
  given, and two stages registered under the same name (as in the tests of the package)
  are emitted under the same name.
\<close>

theorem duplicate_names:
  "map_sum id (map fst) (emitted () () registry_same_name) = Inr [''TEST_NAME'', ''TEST_NAME'']
   \<and> \<not> distinct [''TEST_NAME'', ''TEST_NAME'']"
proof -
  have "GenerateTestSets registry_same_name =
      Inr [\<lparr>TestCases = [new_TestCase () ''TEST_NAME'', new_TestCase () ''TEST_NAME''],
            TestSetName = []\<rparr>]"
    unfolding registry_same_name_eq by (rule single_alternatives)
  then show ?thesis
    by (simp add: emitted_eq pairs_of_names testName_plain new_TestCase_def)
qed

text \<open>
  C8, amended: for every registry that satisfies its invariant and has at most ten
  alternatives in every set, if the registered names are unique within every generated
  path, then any two distinct (path, position) pairs of the emitted sequence have
  distinct emitted names: within a path by the names themselves, across paths by the
  label, which then has one digit for every stage.
\<close>

theorem emitted_names_distinct:
  assumes wf: "wellformed ts"
    and ten: "\<forall>s\<in>set (TestCaseSets ts). length (TestAlternatives s) \<le> 10"
    and names: "\<forall>testSets. GenerateTestSets ts = Inr testSets \<longrightarrow>
                  (\<forall>tset\<in>set testSets. distinct (map TestName (TestCases tset)))"
  shows "\<exists>pairs. emitted zero_sut zero_state ts = Inr pairs \<and> distinct (map fst pairs)"
proof -
  let ?sets = "TestCaseSets ts"
  let ?rs = "counts ?sets"
  let ?n = "nat (prod_list ?rs)"
  let ?idx = "\<lambda>n. \<lparr>currIndexes = unrank ?rs (int n), alternativeCountList = ?rs\<rparr>"
  let ?mk = "\<lambda>n. make_set ?sets (several ?sets) (?idx n)"
  let ?F = "\<lambda>n. map (testName (?mk n)) (TestCases (?mk n))"
  note rs = wellformed_counts [OF wf]
  note g = GenerateTestSets_eq [OF wf]
  have small: "\<forall>r\<in>set ?rs. r \<le> 10" using ten by (auto simp: counts_def)
  have ir: "in_range (unrank ?rs (int n)) ?rs" and rk: "rank (unrank ?rs (int n)) ?rs = int n"
    if "n < ?n" for n
    using rank_unrank [OF rs, of "int n"] that by simp_all
  have dg: "\<forall>c\<in>set (unrank ?rs (int n)). 0 \<le> c \<and> c < 10" if "n < ?n" for n
    by (rule in_range_digits [OF ir [OF that] small])
  have one: "distinct (?F n)" if "n < ?n" for n
  proof -
    from names g
    have "\<forall>tset\<in>set (map ?mk [0..<?n]). distinct (map TestName (TestCases tset))"
      by blast
    with that have d: "distinct (map TestName (TestCases (?mk n)))" by simp
    have "inj_on (testName (?mk n)) (set (TestCases (?mk n)))"
    proof (rule inj_onI)
      fix a b assume a: "a \<in> set (TestCases (?mk n))" and b: "b \<in> set (TestCases (?mk n))"
        and e: "testName (?mk n) a = testName (?mk n) b"
      from testName_inj [OF e] have "TestName a = TestName b" .
      with d a b show "a = b" by (meson distinct_map inj_onD)
    qed
    moreover from d have "distinct (TestCases (?mk n))" by (simp add: distinct_map)
    ultimately show ?thesis by (simp add: distinct_map)
  qed
  have two: "set (?F n) \<inter> set (?F m) = {}" if n: "n < ?n" and m: "m < ?n" and nm: "n \<noteq> m" for n m
  proof -
    from n m nm have "1 < ?n" by simp
    with not_several_one [OF wf] have sev: "several ?sets" by auto
    from several_nonempty [OF sev] have ne: "?sets \<noteq> []" .
    have cur: "currIndexes (?idx k) \<noteq> []" if "k < ?n" for k
      using in_range_length [OF ir [OF that]] ne by (auto simp: counts_def)
    have nm': "unrank ?rs (int n) \<noteq> unrank ?rs (int m)"
    proof
      assume "unrank ?rs (int n) = unrank ?rs (int m)"
      then have "rank (unrank ?rs (int n)) ?rs = rank (unrank ?rs (int m)) ?rs" by simp
      with rk [OF n] rk [OF m] nm show False by simp
    qed
    have len: "length (unrank ?rs (int n)) = length (unrank ?rs (int m))"
      using in_range_length [OF ir [OF n]] in_range_length [OF ir [OF m]] by simp
    show ?thesis
    proof (rule ccontr)
      assume "set (?F n) \<inter> set (?F m) \<noteq> {}"
      then obtain a b where "testName (?mk n) a = testName (?mk m) b" by auto
      then have "''Test Alternative #'' @ String (?idx n) @ ''_'' @ TestName a
               = ''Test Alternative #'' @ String (?idx m) @ ''_'' @ TestName b"
        by (simp only: testName_labelled [OF sev cur [OF n]] testName_labelled [OF sev cur [OF m]])
      with labelled_names_disjoint [OF dg [OF n] dg [OF m] len nm']
      show False by (simp add: String_def)
    qed
  qed
  have "distinct (concat (map ?F [0..<?n]))"
    using one two by (intro distinct_concat_map) auto
  moreover have "map fst (concat (map (pairs_of zero_sut zero_state) (map ?mk [0..<?n]))) = concat (map ?F [0..<?n])"
    by (simp add: map_concat comp_def pairs_of_names)
  ultimately have "distinct (map fst (concat (map (pairs_of zero_sut zero_state) (map ?mk [0..<?n]))))"
    by simp
  then show ?thesis
    by (simp only: emitted_eq g sum.case) blast
qed

theorem emitted_names_distinct_witness:
  "wellformed registry_two_one
   \<and> map_sum id (map fst) (emitted () () registry_two_one) =
       Inr [''Test Alternative #00_login'', ''Test Alternative #00_fetch'',
            ''Test Alternative #10_token'', ''Test Alternative #10_fetch'']
   \<and> distinct [''Test Alternative #00_login'', ''Test Alternative #00_fetch'',
                 ''Test Alternative #10_token'', ''Test Alternative #10_fetch'']"
proof -
  have w: "wellformed registry_two_one"
    by (simp add: wellformed_def registry_two_one_eq)
  have ten: "\<forall>s\<in>set (TestCaseSets registry_two_one). length (TestAlternatives s) \<le> 10"
    by (simp add: registry_two_one_eq)
  have c: "run_counter (NewCurrIndexes (counts (TestCaseSets registry_two_one))) =
      Inr ([\<lparr>currIndexes = [0, 0], alternativeCountList = [2, 1]\<rparr>,
            \<lparr>currIndexes = [1, 0], alternativeCountList = [2, 1]\<rparr>],
           \<lparr>currIndexes = [1, 0], alternativeCountList = [2, 1]\<rparr>)"
    by (simp add: registry_two_one_eq counts_def run_counter.simps AddOne_advance NewCurrIndexes_eq)
  from emitted_by_counter [OF w] obtain out final where
    r: "run_counter (NewCurrIndexes (counts (TestCaseSets registry_two_one))) = Inr (out, final)"
    and g: "GenerateTestSets registry_two_one =
       Inr (map (make_set (TestCaseSets registry_two_one) (several (TestCaseSets registry_two_one))) out)"
    by blast
  from trans [OF r [symmetric] c] have out: "out = [\<lparr>currIndexes = [0, 0], alternativeCountList = [2, 1]\<rparr>,
            \<lparr>currIndexes = [1, 0], alternativeCountList = [2, 1]\<rparr>]"
    by simp
  have l: "String \<lparr>currIndexes = [0, 0], alternativeCountList = [2, 1]\<rparr> = ''00''"
    "String \<lparr>currIndexes = [1, 0], alternativeCountList = [2, 1]\<rparr> = ''10''"
    by (simp_all add: String_def Itoa_def digits.simps digit_char_def)
  have sets: "GenerateTestSets registry_two_one =
       Inr [\<lparr>TestCases = [new_TestCase () ''login'', new_TestCase () ''fetch''], TestSetName = ''00''\<rparr>,
            \<lparr>TestCases = [new_TestCase () ''token'', new_TestCase () ''fetch''], TestSetName = ''10''\<rparr>]"
    unfolding g out
    by (simp add: registry_two_one_eq several_def make_set_def path_def l)
  have names: "\<forall>testSets. GenerateTestSets registry_two_one = Inr testSets \<longrightarrow>
                  (\<forall>tset\<in>set testSets. distinct (map TestName (TestCases tset)))"
    by (simp add: sets new_TestCase_def)
  from emitted_names_distinct [OF w ten names, of "()" "()"] obtain pairs where
    e: "emitted () () registry_two_one = Inr pairs" and d: "distinct (map fst pairs)"
    by blast
  have n: "map_sum id (map fst) (emitted () () registry_two_one) =
       Inr [''Test Alternative #00_login'', ''Test Alternative #00_fetch'',
            ''Test Alternative #10_token'', ''Test Alternative #10_fetch'']"
    by (simp add: emitted_eq sets pairs_of_names testName_def new_TestCase_def)
  with e have mp: "map fst pairs =
            [''Test Alternative #00_login'', ''Test Alternative #00_fetch'',
             ''Test Alternative #10_token'', ''Test Alternative #10_fetch'']"
    by simp
  from d have "distinct [''Test Alternative #00_login'', ''Test Alternative #00_fetch'',
                 ''Test Alternative #10_token'', ''Test Alternative #10_fetch'']"
    unfolding mp .
  with w n show ?thesis by (intro conjI)
qed

subsection \<open>C9: RegisterAlternative\<close>

text \<open>
  C9: on a registry with at least one set, \<open>RegisterAlternative name\<close> does not panic;
  it appends a new test case with that name (no setup function, the zero assertion) to
  the alternatives of the last set, leaves every other set as it was, and the pointer it
  returns refers to the new test case, while every pointer that referred to a test case
  before still refers to the same one.  On a registry with no set it panics with the
  message \<open>Cannot create alternative 'name', since no test is registered yet. Please
  Use builder.Register(name) first, before defining alternatives\<close>, and the registry is
  as it was.
\<close>

theorem RegisterAlternative_result:
  "(TestCaseSets ts \<noteq> [] \<longrightarrow>
      (\<exists>h ts'. RegisterAlternative zero_assert name ts = (Inr h, ts')
         \<and> h = (length (TestCaseSets ts) - 1, length (TestAlternatives (last (TestCaseSets ts))))
         \<and> TestCaseSets ts' =
             butlast (TestCaseSets ts) @
             [\<lparr>TestAlternatives =
                 TestAlternatives (last (TestCaseSets ts)) @ [new_TestCase zero_assert name]\<rparr>]
         \<and> deref ts' h = Some (new_TestCase zero_assert name)
         \<and> TestName (new_TestCase zero_assert name :: ('t, 'sut, 'state, 'assert) TestCase) = name
         \<and> (\<forall>h' tc. deref ts h' = Some tc \<longrightarrow> deref ts' h' = Some tc)))
   \<and> (TestCaseSets ts = [] \<longrightarrow>
        RegisterAlternative zero_assert name ts = (Inl (Panic (no_test_registered name)), ts))
   \<and> no_test_registered ''variantA'' =
       ''Cannot create alternative 'variantA', since no test is registered yet. Please Use builder.Register(name) first, before defining alternatives''"
  for ts :: "('t, 'sut, 'state, 'assert) TestsBuilder"
proof -
  have a: "TestCaseSets ts \<noteq> [] \<longrightarrow>
      (\<exists>h ts'. RegisterAlternative zero_assert name ts = (Inr h, ts')
         \<and> h = (length (TestCaseSets ts) - 1, length (TestAlternatives (last (TestCaseSets ts))))
         \<and> TestCaseSets ts' =
             butlast (TestCaseSets ts) @
             [\<lparr>TestAlternatives =
                 TestAlternatives (last (TestCaseSets ts)) @ [new_TestCase zero_assert name]\<rparr>]
         \<and> deref ts' h = Some (new_TestCase zero_assert name)
         \<and> TestName (new_TestCase zero_assert name :: ('t, 'sut, 'state, 'assert) TestCase) = name
         \<and> (\<forall>h' tc. deref ts h' = Some tc \<longrightarrow> deref ts' h' = Some tc))"
  proof
    assume ne: "TestCaseSets ts \<noteq> []"
    let ?sets = "TestCaseSets ts"
    let ?n = "length ?sets - 1"
    let ?new = "new_TestCase zero_assert name :: ('t, 'sut, 'state, 'assert) TestCase"
    let ?ts' = "ts\<lparr>TestCaseSets := ?sets[?n :=
            (?sets ! ?n)\<lparr>TestAlternatives := TestAlternatives (?sets ! ?n) @ [?new]\<rparr>]\<rparr>"
    from ne have n: "?n < length ?sets" by simp
    from ne have l: "last ?sets = ?sets ! ?n" by (rule last_conv_nth)
    have r: "RegisterAlternative zero_assert name ts =
             (Inr (?n, length (TestAlternatives (last ?sets))), ?ts')"
      using ne by (simp add: RegisterAlternative_def Let_def l)
    have "?sets = butlast ?sets @ [last ?sets]" using ne by simp
    then have "?sets[?n := x] = butlast ?sets @ [x]" for x
      by (metis length_butlast list_update_length)
    then have s: "TestCaseSets ?ts' =
             butlast ?sets @ [\<lparr>TestAlternatives = TestAlternatives (last ?sets) @ [?new]\<rparr>]"
      by (simp add: l)
    have d: "deref ?ts' (?n, length (TestAlternatives (last ?sets))) = Some ?new"
      using n by (simp add: deref_def l)
    have nm: "TestName ?new = name" by (simp add: new_TestCase_def)
    have f: "\<forall>h' tc. deref ts h' = Some tc \<longrightarrow> deref ?ts' h' = Some tc"
      using deref_update_other by blast
    from r s d nm f show "\<exists>h ts'. RegisterAlternative zero_assert name ts = (Inr h, ts')
         \<and> h = (length (TestCaseSets ts) - 1, length (TestAlternatives (last (TestCaseSets ts))))
         \<and> TestCaseSets ts' =
             butlast (TestCaseSets ts) @
             [\<lparr>TestAlternatives =
                 TestAlternatives (last (TestCaseSets ts)) @ [new_TestCase zero_assert name]\<rparr>]
         \<and> deref ts' h = Some (new_TestCase zero_assert name)
         \<and> TestName (new_TestCase zero_assert name :: ('t, 'sut, 'state, 'assert) TestCase) = name
         \<and> (\<forall>h' tc. deref ts h' = Some tc \<longrightarrow> deref ts' h' = Some tc)"
      by blast
  qed
  have b: "TestCaseSets ts = [] \<longrightarrow>
        RegisterAlternative zero_assert name ts = (Inl (Panic (no_test_registered name)), ts)"
    by (simp add: RegisterAlternative_def)
  from a b message_example show ?thesis by blast
qed

theorem RegisterAlternative_result_witness:
  "RegisterAlternative () ''b'' (snd (Register () ''a'' (\<lparr>TestCaseSets = []\<rparr> :: (unit, unit, unit, unit) TestsBuilder)))
     = (Inr (0, 1), \<lparr>TestCaseSets = [\<lparr>TestAlternatives = [new_TestCase () ''a'', new_TestCase () ''b'']\<rparr>]\<rparr>)
   \<and> RegisterAlternative () ''b'' (\<lparr>TestCaseSets = []\<rparr> :: (unit, unit, unit, unit) TestsBuilder)
     = (Inl (Panic (no_test_registered ''b'')), \<lparr>TestCaseSets = []\<rparr>)"
proof -
  let ?e = "\<lparr>TestCaseSets = []\<rparr> :: (unit, unit, unit, unit) TestsBuilder"
  let ?r = "snd (Register () ''a'' ?e)"
  have r: "TestCaseSets ?r = [\<lparr>TestAlternatives = [new_TestCase () ''a'']\<rparr>]"
    by (simp add: Register_def Let_def)
  have "TestCaseSets ?r \<noteq> []" by (simp add: r)
  with RegisterAlternative_result [of ?r "()" "''b''"]
  obtain h ts' where "RegisterAlternative () ''b'' ?r = (Inr h, ts')"
    and "h = (length (TestCaseSets ?r) - 1, length (TestAlternatives (last (TestCaseSets ?r))))"
    and "TestCaseSets ts' = butlast (TestCaseSets ?r) @
             [\<lparr>TestAlternatives = TestAlternatives (last (TestCaseSets ?r)) @ [new_TestCase () ''b'']\<rparr>]"
    by blast
  then have 1: "RegisterAlternative () ''b'' ?r
     = (Inr (0, 1), \<lparr>TestCaseSets = [\<lparr>TestAlternatives = [new_TestCase () ''a'', new_TestCase () ''b'']\<rparr>]\<rparr>)"
    by (cases ts') (simp add: r)
  have "TestCaseSets ?e = []" by simp
  with RegisterAlternative_result [of ?e "()" "''b''"]
  have 2: "RegisterAlternative () ''b'' ?e = (Inl (Panic (no_test_registered ''b'')), ?e)"
    by blast
  from 1 2 show ?thesis by blast
qed

subsection \<open>C10: the order of the emitted pairs\<close>

text \<open>
  C10: for every registry that satisfies its invariant, the iterator emits its pairs
  combination by combination, in the order in which the counter, started at the
  all-zero tuple and driven by \<open>AddOne\<close>, visits the tuples; within one combination it
  emits one pair for each position, from 0 to the number of stages minus one, and all of
  them before any pair of the next combination.  A consumer that stops is offered the
  pairs in this same order up to the one at which it stops.
\<close>

theorem emission_order:
  assumes "wellformed ts"
  shows "\<exists>out final.
     run_counter (NewCurrIndexes (counts (TestCaseSets ts))) = Inr (out, final)
   \<and> currIndexes (hd out) = replicate (length (TestCaseSets ts)) 0
   \<and> emitted zero_sut zero_state ts =
       Inr (concat (map (\<lambda>idx.
              map (\<lambda>i. (testName (make_set (TestCaseSets ts) (several (TestCaseSets ts)) idx)
                           (path (TestCaseSets ts) (currIndexes idx) ! i),
                        build zero_sut zero_state (path (TestCaseSets ts) (currIndexes idx)) i
                           (path (TestCaseSets ts) (currIndexes idx) ! i)))
                [0..<length (TestCaseSets ts)]) out))
   \<and> (\<forall>yield c. Tests zero_sut zero_state ts yield c =
         Inr (snd (offer yield (concat (map (\<lambda>idx.
              map (\<lambda>i. (testName (make_set (TestCaseSets ts) (several (TestCaseSets ts)) idx)
                           (path (TestCaseSets ts) (currIndexes idx) ! i),
                        build zero_sut zero_state (path (TestCaseSets ts) (currIndexes idx)) i
                           (path (TestCaseSets ts) (currIndexes idx) ! i)))
                [0..<length (TestCaseSets ts)]) out)) c)))"
proof -
  let ?sets = "TestCaseSets ts"
  let ?g = "\<lambda>idx.
              map (\<lambda>i. (testName (make_set ?sets (several ?sets) idx) (path ?sets (currIndexes idx) ! i),
                        build zero_sut zero_state (path ?sets (currIndexes idx)) i
                           (path ?sets (currIndexes idx) ! i)))
                [0..<length ?sets]"
  from emitted_by_counter [OF assms] obtain out final where
    r: "run_counter (NewCurrIndexes (counts ?sets)) = Inr (out, final)"
    and ir: "\<forall>idx\<in>set out. in_range (currIndexes idx) (counts ?sets)"
    and g: "GenerateTestSets ts = Inr (map (make_set ?sets (several ?sets)) out)"
    by blast
  have "(pairs_of zero_sut zero_state \<circ> make_set ?sets (several ?sets)) idx = ?g idx"
    if "idx \<in> set out" for idx
    using that ir by (simp add: pairs_of_make_set)
  then have m: "map (pairs_of zero_sut zero_state \<circ> make_set ?sets (several ?sets)) out = map ?g out"
    by (rule map_cong [OF refl])
  have e: "emitted zero_sut zero_state ts = Inr (concat (map ?g out))"
    unfolding emitted_eq g sum.case map_map m ..
  from run_counter_hd [OF r]
  have h: "currIndexes (hd out) = replicate (length ?sets) 0"
    by (simp add: NewCurrIndexes_eq counts_def)
  have t: "\<forall>yield c. Tests zero_sut zero_state ts yield c =
             Inr (snd (offer yield (concat (map ?g out)) c))"
    by (simp add: Tests_offer e)
  from r h e t show ?thesis by blast
qed

theorem emission_order_witness:
  "wellformed registry_two_one
   \<and> map_sum id (map fst) (emitted () () registry_two_one) =
       Inr [''Test Alternative #00_login'', ''Test Alternative #00_fetch'',
            ''Test Alternative #10_token'', ''Test Alternative #10_fetch'']"
proof -
  have w: "wellformed registry_two_one"
    by (simp add: wellformed_def registry_two_one_eq)
  have c: "run_counter (NewCurrIndexes (counts (TestCaseSets registry_two_one))) =
      Inr ([\<lparr>currIndexes = [0, 0], alternativeCountList = [2, 1]\<rparr>,
            \<lparr>currIndexes = [1, 0], alternativeCountList = [2, 1]\<rparr>],
           \<lparr>currIndexes = [1, 0], alternativeCountList = [2, 1]\<rparr>)"
    by (simp add: registry_two_one_eq counts_def run_counter.simps AddOne_advance NewCurrIndexes_eq)
  have l: "String \<lparr>currIndexes = [0, 0], alternativeCountList = [2, 1]\<rparr> = ''00''"
    "String \<lparr>currIndexes = [1, 0], alternativeCountList = [2, 1]\<rparr> = ''10''"
    by (simp_all add: String_def Itoa_def digits.simps digit_char_def)
  from emission_order [OF w, of "()" "()"] obtain out final where
    r: "run_counter (NewCurrIndexes (counts (TestCaseSets registry_two_one))) = Inr (out, final)"
    and e: "emitted () () registry_two_one =
       Inr (concat (map (\<lambda>idx.
              map (\<lambda>i. (testName (make_set (TestCaseSets registry_two_one)
                             (several (TestCaseSets registry_two_one)) idx)
                           (path (TestCaseSets registry_two_one) (currIndexes idx) ! i),
                        build () () (path (TestCaseSets registry_two_one) (currIndexes idx)) i
                           (path (TestCaseSets registry_two_one) (currIndexes idx) ! i)))
                [0..<length (TestCaseSets registry_two_one)]) out))"
    by blast
  from trans [OF r [symmetric] c] have out: "out = [\<lparr>currIndexes = [0, 0], alternativeCountList = [2, 1]\<rparr>,
            \<lparr>currIndexes = [1, 0], alternativeCountList = [2, 1]\<rparr>]"
    by simp
  have "map_sum id (map fst) (emitted () () registry_two_one) =
       Inr [''Test Alternative #00_login'', ''Test Alternative #00_fetch'',
            ''Test Alternative #10_token'', ''Test Alternative #10_fetch'']"
    unfolding e out
    by (simp add: registry_two_one_eq several_def make_set_def path_def testName_def l
        new_TestCase_def)
  with w show ?thesis by blast
qed

end
